theory Spec2Isabelle
  imports Main "HOL-Library.AList" "HOL-Library.Multiset"
begin

section \<open>Python values and builtins used by the scripts\<close>

text \<open>
  The exceptions the modelled code can raise. \<open>KeyboardInterrupt\<close> is the only one that
  is not a subclass of Python's \<open>Exception\<close>; every other constructor is one
  (\<open>APIConnectionError\<close> and \<open>InvalidAPIResponseError\<close> are the classes of
  \<^verbatim>\<open>vk/error.py\<close>, both subclasses of \<open>RuntimeError\<close>).
\<close>

datatype exn =
    KeyboardInterrupt
  | KeyError
  | IndexError
  | NameError
  | ValueError
  | TypeError
  | ArgumentTypeError
  | APIConnectionError
  | InvalidAPIResponseError

text \<open>
  Modelled from the spec: the class \<open>LastSeen\<close> (\<^verbatim>\<open>vk/last_seen.py\<close> is not part
  of the sources): ``a timestamp the source claims the user was last active, plus an
  optional platform tag''. It is taken to be a plain value object: always truthy, not
  convertible by \<open>int\<close>, compared by its contents.
\<close>

record last_seen =
  ls_time :: int
  ls_platform :: "int option"

text \<open>
  The universe of Python values a user field can hold or be assigned from: \<open>None\<close>,
  \<open>bool\<close>, \<open>int\<close>, \<open>str\<close>, a \<open>LastSeen\<close> object and a \<open>Mapping\<close> (the shape of
  the \<open>last_seen\<close> object of an API response: string keys, integer values). Floats,
  lists and nested mappings are outside the model.
\<close>

datatype pyval =
    PNone
  | PBool bool
  | PInt int
  | PStr string
  | PLastSeen last_seen
  | PMapping "(string \<times> int) list"

text \<open>
  What the sources leave open: \<open>LastSeen.from_api_response\<close>, the text \<open>str\<close> gives for
  a \<open>LastSeen\<close> or a mapping, and the hash of a value that is not a number (Python salts
  string hashes per process). They are parameters of the model.
\<close>

record env =
  last_seen_from_api_response :: "(string \<times> int) list \<Rightarrow> exn + last_seen"
  str_obj :: "pyval \<Rightarrow> string"
  hash_obj :: "pyval \<Rightarrow> int"

subsection \<open>\<open>str(int)\<close> and \<open>int(str)\<close>\<close>

fun str_nat :: "nat \<Rightarrow> string" where
  "str_nat n =
     (if n < 10 then [char_of (48 + n)]
      else str_nat (n div 10) @ [char_of (48 + n mod 10)])"

declare str_nat.simps [simp del]

definition str_int :: "int \<Rightarrow> string" where
  "str_int i = (if i < 0 then CHR ''-'' # str_nat (nat (- i)) else str_nat (nat i))"

text \<open>
  \<open>int(s)\<close> for an ASCII string: surrounding whitespace is stripped, an optional sign
  follows, then decimal digits, single underscores allowed between digits. \<open>None\<close>
  stands for the \<open>ValueError\<close> Python raises. The whitespace of an ASCII string is the
  space and the characters 9 to 13 (tab, line feed, vertical tab, form feed, carriage
  return); the separators 28 to 31 are not stripped. Strings with characters outside
  ASCII, where \<open>int\<close> also accepts other whitespace and digits, are outside the model.
\<close>

definition is_space :: "char \<Rightarrow> bool" where
  "is_space c \<longleftrightarrow> (let n = (of_char c :: nat) in n = 32 \<or> (9 \<le> n \<and> n \<le> 13))"

definition strip :: "string \<Rightarrow> string" where
  "strip s = rev (dropWhile is_space (rev (dropWhile is_space s)))"

definition digit_val :: "char \<Rightarrow> nat option" where
  "digit_val c = (let n = (of_char c :: nat) in if 48 \<le> n \<and> n \<le> 57 then Some (n - 48) else None)"

fun parse_digits :: "nat \<Rightarrow> string \<Rightarrow> nat option" where
  "parse_digits acc [] = None"
| "parse_digits acc [c] =
     (case digit_val c of None \<Rightarrow> None | Some d \<Rightarrow> Some (10 * acc + d))"
| "parse_digits acc (c # c' # cs) =
     (case digit_val c of
        None \<Rightarrow> None
      | Some d \<Rightarrow>
          if c' = CHR ''_'' then parse_digits (10 * acc + d) cs
          else parse_digits (10 * acc + d) (c' # cs))"

definition int_of_str :: "string \<Rightarrow> int option" where
  "int_of_str s =
     (case strip s of
        [] \<Rightarrow> None
      | c # cs \<Rightarrow>
          if c = CHR ''-'' then map_option (\<lambda>n. - int n) (parse_digits 0 cs)
          else if c = CHR ''+'' then map_option int (parse_digits 0 cs)
          else map_option int (parse_digits 0 (c # cs)))"

subsection \<open>\<open>int\<close>, \<open>bool\<close>, \<open>str\<close>, \<open>==\<close> and \<open>hash\<close> on values\<close>

fun py_int :: "pyval \<Rightarrow> exn + pyval" where
  "py_int (PInt n) = Inr (PInt n)"
| "py_int (PBool b) = Inr (PInt (if b then 1 else 0))"
| "py_int (PStr s) = (case int_of_str s of None \<Rightarrow> Inl ValueError | Some n \<Rightarrow> Inr (PInt n))"
| "py_int PNone = Inl TypeError"
| "py_int (PLastSeen l) = Inl TypeError"
| "py_int (PMapping m) = Inl TypeError"

fun py_bool :: "pyval \<Rightarrow> bool" where
  "py_bool PNone = False"
| "py_bool (PBool b) = b"
| "py_bool (PInt n) = (n \<noteq> 0)"
| "py_bool (PStr s) = (s \<noteq> [])"
| "py_bool (PLastSeen l) = True"
| "py_bool (PMapping m) = (m \<noteq> [])"

fun py_str :: "env \<Rightarrow> pyval \<Rightarrow> string" where
  "py_str E PNone = ''None''"
| "py_str E (PBool b) = (if b then ''True'' else ''False'')"
| "py_str E (PInt n) = str_int n"
| "py_str E (PStr s) = s"
| "py_str E (PLastSeen l) = str_obj E (PLastSeen l)"
| "py_str E (PMapping m) = str_obj E (PMapping m)"

text \<open>
  \<open>==\<close>: \<open>bool\<close> is a subclass of \<open>int\<close>, so \<open>True == 1\<close>; two mappings are equal
  when they hold the same items, in any order.
\<close>

fun num_of :: "pyval \<Rightarrow> int option" where
  "num_of (PInt n) = Some n"
| "num_of (PBool b) = Some (if b then 1 else 0)"
| "num_of v = None"

definition py_eq :: "pyval \<Rightarrow> pyval \<Rightarrow> bool" where
  "py_eq a b =
     (case (num_of a, num_of b) of
        (Some m, Some n) \<Rightarrow> m = n
      | (Some m, None) \<Rightarrow> False
      | (None, Some n) \<Rightarrow> False
      | (None, None) \<Rightarrow>
          (case (a, b) of
             (PMapping m, PMapping n) \<Rightarrow> set m = set n
           | _ \<Rightarrow> a = b))"

text \<open>
  \<open>hash\<close> of an integer in CPython on a 64-bit build: the value modulo \<open>2^61 - 1\<close>
  with the sign kept, and -2 in place of -1. A mapping is unhashable.
\<close>

definition hash_int :: "int \<Rightarrow> int" where
  "hash_int n =
     (let h = (if n < 0 then - ((- n) mod (2 ^ 61 - 1)) else n mod (2 ^ 61 - 1))
      in if h = - 1 then - 2 else h)"

fun py_hash :: "env \<Rightarrow> pyval \<Rightarrow> exn + int" where
  "py_hash E (PInt n) = Inr (hash_int n)"
| "py_hash E (PBool b) = Inr (hash_int (if b then 1 else 0))"
| "py_hash E (PMapping m) = Inl TypeError"
| "py_hash E PNone = Inr (hash_obj E PNone)"
| "py_hash E (PStr s) = Inr (hash_obj E (PStr s))"
| "py_hash E (PLastSeen l) = Inr (hash_obj E (PLastSeen l))"

section \<open>\<^verbatim>\<open>vk/user.py\<close>\<close>

fun parse_last_seen :: "env \<Rightarrow> pyval \<Rightarrow> exn + pyval" where
  "parse_last_seen E (PLastSeen l) = Inr (PLastSeen l)"
| "parse_last_seen E (PMapping m) =
     (case last_seen_from_api_response E m of Inl e \<Rightarrow> Inl e | Inr l \<Rightarrow> Inr (PLastSeen l))"
| "parse_last_seen E v = Inl TypeError"

definition parse_online_flag :: "pyval \<Rightarrow> exn + pyval" where
  "parse_online_flag x =
     (case x of
        PStr s \<Rightarrow>
          if ''True'' = s then Inr (PBool True)
          else if ''False'' = s then Inr (PBool False)
          else Inl ValueError
      | _ \<Rightarrow> Inr (PBool (py_bool x)))"

datatype UserField = UID | FIRST_NAME | LAST_NAME | SCREEN_NAME | ONLINE | LAST_SEEN

fun str_field :: "UserField \<Rightarrow> string" where
  "str_field UID = ''uid''"
| "str_field FIRST_NAME = ''first_name''"
| "str_field LAST_NAME = ''last_name''"
| "str_field SCREEN_NAME = ''screen_name''"
| "str_field ONLINE = ''online''"
| "str_field LAST_SEEN = ''last_seen''"

definition all_fields :: "UserField list" where
  "all_fields = [UID, FIRST_NAME, LAST_NAME, SCREEN_NAME, ONLINE, LAST_SEEN]"

text \<open>
  A \<open>User\<close> is its \<open>_fields\<close>, an \<open>OrderedDict\<close>: an association list in insertion
  order. \<open>User()\<close> starts from the empty one; \<open>User(fields)\<close> stores the given
  dictionary as it is.
\<close>

type_synonym user = "(UserField \<times> pyval) list"

definition User :: "user" where
  "User = []"

text \<open>\<open>_FIELD_PARSERS\<close> with \<open>_DEFAULT_FIELD_PARSER = str\<close>.\<close>

fun parse :: "env \<Rightarrow> UserField \<Rightarrow> pyval \<Rightarrow> exn + pyval" where
  "parse E UID v = py_int v"
| "parse E ONLINE v = parse_online_flag v"
| "parse E LAST_SEEN v = parse_last_seen E v"
| "parse E f v = Inr (PStr (py_str E v))"

definition getitem :: "user \<Rightarrow> UserField \<Rightarrow> exn + pyval" where
  "getitem u f = (case map_of u f of None \<Rightarrow> Inl KeyError | Some v \<Rightarrow> Inr v)"

definition setitem :: "env \<Rightarrow> user \<Rightarrow> UserField \<Rightarrow> pyval \<Rightarrow> exn + user" where
  "setitem E u f v = (case parse E f v of Inl e \<Rightarrow> Inl e | Inr w \<Rightarrow> Inr (AList.update f w u))"

definition delitem :: "user \<Rightarrow> UserField \<Rightarrow> exn + user" where
  "delitem u f = (case map_of u f of None \<Rightarrow> Inl KeyError | Some v \<Rightarrow> Inr (AList.delete f u))"

definition contains :: "user \<Rightarrow> UserField \<Rightarrow> bool" where
  "contains u f = (case getitem u f of Inl e \<Rightarrow> False | Inr v \<Rightarrow> True)"

fun from_api_response_loop ::
  "env \<Rightarrow> (string \<times> pyval) list \<Rightarrow> UserField list \<Rightarrow> user \<Rightarrow> exn + user" where
  "from_api_response_loop E source [] instance = Inr instance"
| "from_api_response_loop E source (field # rest) instance =
     (case map_of source (str_field field) of
        None \<Rightarrow> from_api_response_loop E source rest instance
      | Some v \<Rightarrow>
          (case setitem E instance field v of
             Inl e \<Rightarrow> Inl e
           | Inr instance' \<Rightarrow> from_api_response_loop E source rest instance'))"

definition from_api_response :: "env \<Rightarrow> (string \<times> pyval) list \<Rightarrow> exn + user" where
  "from_api_response E source = from_api_response_loop E source all_fields User"

definition get_uid :: "user \<Rightarrow> exn + pyval" where
  "get_uid u = getitem u UID"

definition user_eq :: "user \<Rightarrow> user \<Rightarrow> exn + bool" where
  "user_eq self other =
     (case get_uid self of
        Inl e \<Rightarrow> Inl e
      | Inr a \<Rightarrow> (case get_uid other of Inl e \<Rightarrow> Inl e | Inr b \<Rightarrow> Inr (py_eq a b)))"

definition user_hash :: "env \<Rightarrow> user \<Rightarrow> exn + int" where
  "user_hash E self = (case get_uid self of Inl e \<Rightarrow> Inl e | Inr a \<Rightarrow> py_hash E a)"

definition get_first_name :: "user \<Rightarrow> exn + pyval" where
  "get_first_name u = getitem u FIRST_NAME"

definition get_last_name :: "user \<Rightarrow> exn + pyval" where
  "get_last_name u = getitem u LAST_NAME"

text \<open>
  \<open>has_last_name\<close> is \<open>LAST_NAME in self and self.get_last_name()\<close>: \<open>False\<close> or the
  stored last name itself, which the caller tests for truth.
\<close>

definition has_last_name :: "user \<Rightarrow> exn + pyval" where
  "has_last_name u = (if contains u LAST_NAME then get_last_name u else Inr (PBool False))"

definition has_screen_name :: "user \<Rightarrow> bool" where
  "has_screen_name u = contains u SCREEN_NAME"

definition get_screen_name :: "env \<Rightarrow> user \<Rightarrow> exn + pyval" where
  "get_screen_name E u =
     (if has_screen_name u then getitem u SCREEN_NAME
      else (case get_uid u of Inl e \<Rightarrow> Inl e | Inr v \<Rightarrow> Inr (PStr (''id'' @ py_str E v))))"

definition is_online :: "user \<Rightarrow> exn + pyval" where
  "is_online u = getitem u ONLINE"

definition get_last_seen :: "user \<Rightarrow> exn + pyval" where
  "get_last_seen u = getitem u LAST_SEEN"

section \<open>\<^verbatim>\<open>vk/utils/tracking/utils/online_streak_duration.py\<close>\<close>

definition USER_FIELDS :: "UserField list" where
  "USER_FIELDS = [UID, FIRST_NAME, LAST_NAME, SCREEN_NAME]"

definition DURATION_FIELD :: string where
  "DURATION_FIELD = ''duration''"

text \<open>
  A record of the JSON writer is an \<open>OrderedDict\<close> from strings to values. The text
  \<open>json.dumps(array, indent=n)\<close> is kept as the term \<open>JsonDumps array n\<close> rather than
  rendered; \<open>json.dumps\<close> raises \<open>TypeError\<close> on an object it cannot serialise, here a
  \<open>LastSeen\<close>.
\<close>

type_synonym json_record = "(string \<times> pyval) list"

datatype json_text = JsonDumps "json_record list" nat

fun json_serializable :: "pyval \<Rightarrow> bool" where
  "json_serializable (PLastSeen l) = False"
| "json_serializable v = True"

definition json_dumps :: "json_record list \<Rightarrow> nat \<Rightarrow> exn + json_text" where
  "json_dumps arr indent =
     (if list_all (list_all (\<lambda>kv. json_serializable (snd kv))) arr
      then Inr (JsonDumps arr indent) else Inl TypeError)"

text \<open>
  \<open>OutputWriterJSON\<close>: \<open>w_fd\<close> is what has been written to the file object so far, one
  entry per \<open>write\<close> call; \<open>w_array\<close> is \<open>_array\<close>. The duration is an object of a class
  outside the sources; \<open>str\<close> of it is the parameter \<open>str_d\<close>.
\<close>

record OutputWriterJSON =
  w_fd :: "json_text list"
  w_array :: "json_record list"

definition open_output_writer_json :: "json_text list \<Rightarrow> OutputWriterJSON" where
  "open_output_writer_json fd = \<lparr>w_fd = fd, w_array = []\<rparr>"

fun fill_record :: "user \<Rightarrow> UserField list \<Rightarrow> json_record \<Rightarrow> exn + json_record" where
  "fill_record user [] r = Inr r"
| "fill_record user (field # rest) r =
     (case getitem user field of
        Inl e \<Rightarrow> Inl e
      | Inr v \<Rightarrow> fill_record user rest (AList.update (str_field field) v r))"

definition user_duration_to_object :: "('d \<Rightarrow> string) \<Rightarrow> user \<Rightarrow> 'd \<Rightarrow> exn + json_record" where
  "user_duration_to_object str_d user duration =
     (case fill_record user USER_FIELDS [] of
        Inl e \<Rightarrow> Inl e
      | Inr r \<Rightarrow> Inr (AList.update DURATION_FIELD (PStr (str_d duration)) r))"

definition json_add_user_duration ::
  "('d \<Rightarrow> string) \<Rightarrow> OutputWriterJSON \<Rightarrow> user \<Rightarrow> 'd \<Rightarrow> exn + OutputWriterJSON" where
  "json_add_user_duration str_d w user duration =
     (case user_duration_to_object str_d user duration of
        Inl e \<Rightarrow> Inl e
      | Inr r \<Rightarrow> Inr (w\<lparr>w_array := w_array w @ [r]\<rparr>))"

definition json_exit :: "OutputWriterJSON \<Rightarrow> exn + OutputWriterJSON" where
  "json_exit w =
     (case json_dumps (w_array w) 3 of
        Inl e \<Rightarrow> Inl e
      | Inr t \<Rightarrow> Inr (w\<lparr>w_fd := w_fd w @ [t]\<rparr>))"

text \<open>The calls \<open>process_database\<close> makes on a writer, one per item, stopping at a raise.\<close>

fun json_add_all ::
  "('d \<Rightarrow> string) \<Rightarrow> OutputWriterJSON \<Rightarrow> (user \<times> 'd) list \<Rightarrow> exn + OutputWriterJSON" where
  "json_add_all str_d w [] = Inr w"
| "json_add_all str_d w ((user, duration) # rest) =
     (case json_add_user_duration str_d w user duration of
        Inl e \<Rightarrow> Inl e
      | Inr w' \<Rightarrow> json_add_all str_d w' rest)"

text \<open>
  \<open>PlotBuilder._duration_by_user\<close> is a \<open>dict\<close> keyed by \<open>User\<close>. An entry of a dict
  holds the key's hash, the key and the value; storing under a key looks for an entry
  with the same hash whose key is \<open>==\<close> to the new one, overwrites its value when there
  is one (the entry keeps its own key object) and appends a new entry otherwise.
\<close>

type_synonym 'd user_dict = "(int \<times> user \<times> 'd) list"

fun dict_store :: "int \<Rightarrow> user \<Rightarrow> 'd \<Rightarrow> 'd user_dict \<Rightarrow> exn + 'd user_dict" where
  "dict_store h k v [] = Inr [(h, k, v)]"
| "dict_store h k v ((h', k', v') # rest) =
     (if h' = h then
        (case user_eq k' k of
           Inl e \<Rightarrow> Inl e
         | Inr True \<Rightarrow> Inr ((h', k', v) # rest)
         | Inr False \<Rightarrow>
             (case dict_store h k v rest of
                Inl e \<Rightarrow> Inl e
              | Inr rest' \<Rightarrow> Inr ((h', k', v') # rest')))
      else
        (case dict_store h k v rest of
           Inl e \<Rightarrow> Inl e
         | Inr rest' \<Rightarrow> Inr ((h', k', v') # rest')))"

definition dict_setitem :: "env \<Rightarrow> 'd user_dict \<Rightarrow> user \<Rightarrow> 'd \<Rightarrow> exn + 'd user_dict" where
  "dict_setitem E d k v =
     (case user_hash E k of Inl e \<Rightarrow> Inl e | Inr h \<Rightarrow> dict_store h k v d)"

definition plot_add_user_duration ::
  "env \<Rightarrow> 'd user_dict \<Rightarrow> user \<Rightarrow> 'd \<Rightarrow> exn + 'd user_dict" where
  "plot_add_user_duration E duration_by_user user duration =
     dict_setitem E duration_by_user user duration"

section \<open>\<^verbatim>\<open>track_status.py\<close>\<close>

text \<open>
  The log is the list of records handed to \<open>logging\<close>, oldest first: the message of a
  \<open>logging.info\<close> call, or the exception of a \<open>logging.exception\<close> call. A function
  that logs takes the log and returns what it raised or returned, with the log after
  it.
\<close>

datatype log_record = Info string | Exception exn

type_synonym log = "log_record list"

type_synonym 'a io = "log \<Rightarrow> (exn + 'a) \<times> log"

definition io_return :: "'a \<Rightarrow> 'a io" where
  "io_return a lg = (Inr a, lg)"

definition io_raise :: "exn \<Rightarrow> 'a io" where
  "io_raise e lg = (Inl e, lg)"

definition io_lift :: "exn + 'a \<Rightarrow> 'a io" where
  "io_lift r = (case r of Inl e \<Rightarrow> io_raise e | Inr a \<Rightarrow> io_return a)"

definition io_bind :: "'a io \<Rightarrow> ('a \<Rightarrow> 'b io) \<Rightarrow> 'b io" where
  "io_bind m f lg = (case m lg of (Inl e, lg') \<Rightarrow> (Inl e, lg') | (Inr a, lg') \<Rightarrow> f a lg')"

definition logging_info :: "string \<Rightarrow> unit io" where
  "logging_info msg lg = (Inr (), lg @ [Info msg])"

definition format_user :: "env \<Rightarrow> user \<Rightarrow> exn + string" where
  "format_user E user =
     (case has_last_name user of
        Inl e \<Rightarrow> Inl e
      | Inr h \<Rightarrow>
          if py_bool h then
            (case get_last_name user of
               Inl e \<Rightarrow> Inl e
             | Inr l \<Rightarrow>
                 (case get_first_name user of
                    Inl e \<Rightarrow> Inl e
                  | Inr f \<Rightarrow> Inr (py_str E l @ '' '' @ py_str E f)))
          else
            (case get_first_name user of
               Inl e \<Rightarrow> Inl e
             | Inr f \<Rightarrow> Inr (py_str E f)))"

definition format_user_is_online :: "env \<Rightarrow> user \<Rightarrow> exn + string" where
  "format_user_is_online E user =
     (case format_user E user of Inl e \<Rightarrow> Inl e | Inr s \<Rightarrow> Inr (s @ '' is ONLINE''))"

definition format_user_is_offline :: "env \<Rightarrow> user \<Rightarrow> exn + string" where
  "format_user_is_offline E user =
     (case format_user E user of Inl e \<Rightarrow> Inl e | Inr s \<Rightarrow> Inr (s @ '' is OFFLINE''))"

definition format_user_last_seen :: "env \<Rightarrow> user \<Rightarrow> exn + string" where
  "format_user_last_seen E user =
     (case format_user E user of
        Inl e \<Rightarrow> Inl e
      | Inr s \<Rightarrow>
          (case get_last_seen user of
             Inl e \<Rightarrow> Inl e
           | Inr l \<Rightarrow> Inr (s @ '' was last seen at '' @ py_str E l)))"

definition format_user_went_online :: "env \<Rightarrow> user \<Rightarrow> exn + string" where
  "format_user_went_online E user =
     (case format_user E user of Inl e \<Rightarrow> Inl e | Inr s \<Rightarrow> Inr (s @ '' went ONLINE''))"

definition format_user_went_offline :: "env \<Rightarrow> user \<Rightarrow> exn + string" where
  "format_user_went_offline E user =
     (case format_user E user of Inl e \<Rightarrow> Inl e | Inr s \<Rightarrow> Inr (s @ '' went OFFLINE''))"

definition user_is_online :: "env \<Rightarrow> user \<Rightarrow> unit io" where
  "user_is_online E user = io_bind (io_lift (format_user_is_online E user)) logging_info"

definition user_is_offline :: "env \<Rightarrow> user \<Rightarrow> unit io" where
  "user_is_offline E user =
     io_bind (io_bind (io_lift (format_user_is_offline E user)) logging_info)
       (\<lambda>_. io_bind (io_lift (format_user_last_seen E user)) logging_info)"

definition user_went_online :: "env \<Rightarrow> user \<Rightarrow> unit io" where
  "user_went_online E user = io_bind (io_lift (format_user_went_online E user)) logging_info"

text \<open>
  \<open>user_went_offline\<close> calls \<open>format_usre_went_offline\<close>, a name that no definition of
  the module binds (the function defined above it is \<open>format_user_went_offline\<close>):
  looking the name up raises \<open>NameError\<close> before anything is formatted or logged.
\<close>

definition user_went_offline :: "env \<Rightarrow> user \<Rightarrow> unit io" where
  "user_went_offline E user = io_raise NameError"

definition print_status :: "env \<Rightarrow> user \<Rightarrow> unit io" where
  "print_status E user =
     io_bind (io_lift (is_online user))
       (\<lambda>b. if py_bool b then user_is_online E user else user_is_offline E user)"

definition print_status_update :: "env \<Rightarrow> user \<Rightarrow> unit io" where
  "print_status_update E user =
     io_bind (io_lift (is_online user))
       (\<lambda>b. if py_bool b then user_went_online E user else user_went_offline E user)"

definition parse_timeout :: "string \<Rightarrow> exn + int" where
  "parse_timeout source =
     (case int_of_str source of
        None \<Rightarrow> Inl ValueError
      | Some timeout \<Rightarrow> if timeout < 1 then Inl ArgumentTypeError else Inr timeout)"

definition DEFAULT_TIMEOUT :: int where
  "DEFAULT_TIMEOUT = 5"

text \<open>
  The \<open>--timeout\<close> option as \<open>argparse\<close> resolves it: the default when the flag is
  absent, \<open>parse_timeout\<close> of its argument otherwise.
\<close>

definition timeout_option :: "string option \<Rightarrow> exn + int" where
  "timeout_option arg = (case arg of None \<Rightarrow> Inr DEFAULT_TIMEOUT | Some source \<Rightarrow> parse_timeout source)"

text \<open>
  One call of \<open>api.users_get\<close> (after the \<open>time.sleep\<close> that precedes it inside the
  loop) either returns a list of users or raises; \<open>Raises KeyboardInterrupt\<close> is an
  interrupt during the sleep or the request. The module \<open>api\<close> is outside the sources,
  so the run is driven by the list of these outcomes.
\<close>

datatype poll = Fetched "user list" | Raises exn

fun print_all :: "env \<Rightarrow> user list \<Rightarrow> unit io" where
  "print_all E [] = io_return ()"
| "print_all E (user # rest) = io_bind (print_status E user) (\<lambda>_. print_all E rest)"

text \<open>
  The body of \<open>for i in range(len(updated_users))\<close>, on the stored list \<open>users\<close>:
  \<open>users[i]\<close> is read first (an \<open>IndexError\<close> when the new list is longer), then the
  two flags are compared with \<open>!=\<close>. The assignment to \<open>users[i]\<close> precedes the call of
  \<open>print_status_update\<close>; when the call raises, the exception leaves the function and
  the stored list with it.
\<close>

definition update_at :: "env \<Rightarrow> user list \<Rightarrow> nat \<Rightarrow> user list \<Rightarrow> (user list) io" where
  "update_at E updated_users i users =
     (if length users \<le> i then io_raise IndexError
      else
        io_bind (io_lift (is_online (users ! i)))
          (\<lambda>a. io_bind (io_lift (is_online (updated_users ! i)))
            (\<lambda>b. if \<not> py_eq a b then
                   io_bind (print_status_update E (updated_users ! i))
                     (\<lambda>_. io_return (users[i := updated_users ! i]))
                 else io_return users)))"

fun for_range :: "env \<Rightarrow> user list \<Rightarrow> nat list \<Rightarrow> user list \<Rightarrow> (user list) io" where
  "for_range E updated_users [] users = io_return users"
| "for_range E updated_users (i # rest) users =
     io_bind (update_at E updated_users i users) (for_range E updated_users rest)"

definition update_cycle :: "env \<Rightarrow> user list \<Rightarrow> user list \<Rightarrow> (user list) io" where
  "update_cycle E updated_users users =
     for_range E updated_users [0..<length updated_users] users"

text \<open>
  \<open>while True\<close> never returns: on a finite list of polls the model stops when the list
  is used up, and \<open>Inr users\<close> then is the stored list of a loop that is still running.
\<close>

fun while_true :: "env \<Rightarrow> poll list \<Rightarrow> user list \<Rightarrow> (user list) io" where
  "while_true E [] users = io_return users"
| "while_true E (Raises e # polls) users = io_raise e"
| "while_true E (Fetched updated_users # polls) users =
     io_bind (update_cycle E updated_users users) (while_true E polls)"

fun loop_update_status :: "env \<Rightarrow> poll list \<Rightarrow> (user list) io" where
  "loop_update_status E [] = io_return []"
| "loop_update_status E (Raises e # polls) = io_raise e"
| "loop_update_status E (Fetched users # polls) =
     io_bind (print_all E users) (\<lambda>_. while_true E polls users)"

text \<open>
  The \<open>try\<close> statement of the script: the exit status of the process and the final log;
  \<open>None\<close> while the loop is still running.
\<close>

definition main :: "env \<Rightarrow> poll list \<Rightarrow> int option \<times> log" where
  "main E polls =
     (case loop_update_status E polls [] of
        (Inr users, lg) \<Rightarrow> (None, lg)
      | (Inl e, lg) \<Rightarrow>
          if e = KeyboardInterrupt then (Some 0, lg)
          else (Some 1, lg @ [Exception e]))"

section \<open>Notions used to state the properties\<close>

text \<open>
  The types the per-field parsers leave in the \<open>UID\<close> and \<open>ONLINE\<close> fields.
\<close>

fun is_int :: "pyval \<Rightarrow> bool" where
  "is_int (PInt n) = True"
| "is_int v = False"

fun is_bool :: "pyval \<Rightarrow> bool" where
  "is_bool (PBool b) = True"
| "is_bool v = False"

definition fields_typed :: "user \<Rightarrow> bool" where
  "fields_typed u \<longleftrightarrow>
     (case map_of u UID of None \<Rightarrow> True | Some v \<Rightarrow> is_int v) \<and>
     (case map_of u ONLINE of None \<Rightarrow> True | Some v \<Rightarrow> is_bool v)"

text \<open>
  A mutation of a user is an item assignment or an item deletion (the other methods of
  \<open>MutableMapping\<close> are built from these two). An attempt that raises leaves the user
  as it was: \<open>__setitem__\<close> parses before it stores, \<open>__delitem__\<close> fails on a missing
  key.
\<close>

datatype mutation = SetItem UserField pyval | DelItem UserField

fun mutate :: "env \<Rightarrow> user \<Rightarrow> mutation \<Rightarrow> user" where
  "mutate E u (SetItem f v) = (case setitem E u f v of Inl e \<Rightarrow> u | Inr u' \<Rightarrow> u')"
| "mutate E u (DelItem f) = (case delitem u f of Inl e \<Rightarrow> u | Inr u' \<Rightarrow> u')"

text \<open>
  The calls \<open>process_database\<close> makes on a \<open>PlotBuilder\<close>, and two invariants of its
  dictionary: every entry stores the hash of its key, and no two keys are equal users.
\<close>

fun plot_add_all :: "env \<Rightarrow> 'd user_dict \<Rightarrow> (user \<times> 'd) list \<Rightarrow> exn + 'd user_dict" where
  "plot_add_all E d [] = Inr d"
| "plot_add_all E d ((user, duration) # rest) =
     (case plot_add_user_duration E d user duration of
        Inl e \<Rightarrow> Inl e
      | Inr d' \<Rightarrow> plot_add_all E d' rest)"

fun hashes_ok :: "env \<Rightarrow> 'd user_dict \<Rightarrow> bool" where
  "hashes_ok E [] = True"
| "hashes_ok E ((h, k, v) # rest) = (user_hash E k = Inr h \<and> hashes_ok E rest)"

fun no_dup :: "'d user_dict \<Rightarrow> bool" where
  "no_dup [] = True"
| "no_dup ((h, k, v) # rest) =
     ((\<forall>e \<in> set rest. user_eq k (fst (snd e)) = Inr False) \<and> no_dup rest)"

text \<open>An instance of the parameters, for evaluating the model on concrete inputs.\<close>

definition env0 :: env where
  "env0 =
     \<lparr>last_seen_from_api_response =
        (\<lambda>m. case map_of m ''time'' of
               None \<Rightarrow> Inl KeyError
             | Some t \<Rightarrow> Inr \<lparr>ls_time = t, ls_platform = map_of m ''platform''\<rparr>),
      str_obj = (\<lambda>v. ''<object>''),
      hash_obj = (\<lambda>v. 0)\<rparr>"

text \<open>Users for evaluating the tracker, as \<open>User.from_api_response\<close> builds them.\<close>

definition alice_online :: user where
  "alice_online = [(UID, PInt 1), (FIRST_NAME, PStr ''Alice''), (ONLINE, PBool True)]"

definition alice_offline :: user where
  "alice_offline =
     [(UID, PInt 1), (FIRST_NAME, PStr ''Alice''), (ONLINE, PBool False),
      (LAST_SEEN, PLastSeen \<lparr>ls_time = 100, ls_platform = Some 7\<rparr>)]"

definition bob_online :: user where
  "bob_online =
     [(UID, PInt 2), (FIRST_NAME, PStr ''Bob''), (LAST_NAME, PStr ''Ray''), (ONLINE, PBool True)]"

definition bob_offline :: user where
  "bob_offline =
     [(UID, PInt 2), (FIRST_NAME, PStr ''Bob''), (LAST_NAME, PStr ''Ray''), (ONLINE, PBool False),
      (LAST_SEEN, PLastSeen \<lparr>ls_time = 50, ls_platform = None\<rparr>)]"

text \<open>
  A user whose API response carries no \<open>last_seen\<close> object: \<open>from_api_response\<close> sets
  only the fields the response holds.
\<close>

definition carl_response :: "(string \<times> pyval) list" where
  "carl_response = [(''uid'', PInt 3), (''first_name'', PStr ''Carl''), (''online'', PInt 0)]"

definition carl_offline :: user where
  "carl_offline = [(UID, PInt 3), (FIRST_NAME, PStr ''Carl''), (ONLINE, PBool False)]"

text \<open>
  What the JSON writer needs of a user, and the record it is expected to build: the four
  identity fields, each holding a value \<open>json.dumps\<close> can serialise, followed by the
  duration as a string.
\<close>

definition has_identity :: "user \<Rightarrow> bool" where
  "has_identity u \<longleftrightarrow>
     list_all (\<lambda>f. case map_of u f of None \<Rightarrow> False | Some v \<Rightarrow> json_serializable v) USER_FIELDS"

definition expected_record :: "('d \<Rightarrow> string) \<Rightarrow> user \<times> 'd \<Rightarrow> json_record" where
  "expected_record str_d c =
     [(''uid'', the (map_of (fst c) UID)),
      (''first_name'', the (map_of (fst c) FIRST_NAME)),
      (''last_name'', the (map_of (fst c) LAST_NAME)),
      (''screen_name'', the (map_of (fst c) SCREEN_NAME)),
      (''duration'', PStr (str_d (snd c)))]"

text \<open>
  Notions for the tracker. Two snapshots have the same flag when both carry an online
  flag and the flags are \<open>==\<close>; an acquisition is unchanged against the stored list
  when it is no longer than that list and agrees with it position by position. A user
  is printable when it has the fields \<open>print_status\<close> reads; \<open>initial_records\<close> is the
  initial-state notification of such a user.
\<close>

definition same_flag :: "user \<Rightarrow> user \<Rightarrow> bool" where
  "same_flag u v =
     (case is_online u of
        Inl e \<Rightarrow> False
      | Inr a \<Rightarrow> (case is_online v of Inl e \<Rightarrow> False | Inr b \<Rightarrow> py_eq a b))"

definition unchanged :: "user list \<Rightarrow> user list \<Rightarrow> bool" where
  "unchanged users updated_users \<longleftrightarrow>
     length updated_users \<le> length users \<and>
     list_all (\<lambda>(u, v). same_flag u v) (zip users updated_users)"

definition printable :: "user \<Rightarrow> bool" where
  "printable u \<longleftrightarrow>
     (case map_of u ONLINE of
        None \<Rightarrow> False
      | Some b \<Rightarrow> map_of u FIRST_NAME \<noteq> None \<and> (py_bool b \<or> map_of u LAST_SEEN \<noteq> None))"

definition full_name :: "env \<Rightarrow> user \<Rightarrow> string" where
  "full_name E u =
     (case map_of u LAST_NAME of
        None \<Rightarrow> py_str E (the (map_of u FIRST_NAME))
      | Some l \<Rightarrow>
          if py_bool l then py_str E l @ '' '' @ py_str E (the (map_of u FIRST_NAME))
          else py_str E (the (map_of u FIRST_NAME)))"

definition initial_records :: "env \<Rightarrow> user \<Rightarrow> log" where
  "initial_records E u =
     (if py_bool (the (map_of u ONLINE)) then [Info (full_name E u @ '' is ONLINE'')]
      else [Info (full_name E u @ '' is OFFLINE''),
            Info (full_name E u @ '' was last seen at '' @ py_str E (the (map_of u LAST_SEEN)))])"

text \<open>
  Notions for comparing two runs. \<open>permute p xs\<close> lists the elements of \<open>xs\<close> in the
  order of the indices \<open>p\<close>. \<open>cell\<close> is the loop body on one stored and one new
  snapshot; \<open>cell_ok\<close>, \<open>cell_new\<close> and \<open>cell_out\<close> say whether it returns, what it
  leaves stored and what it logs, and \<open>cycle_new\<close> and \<open>cycle_out\<close> collect these over
  the indices of a cycle. \<open>status_ok\<close> and \<open>status_out\<close> do the same for
  \<open>print_status\<close>.
\<close>

definition permute :: "nat list \<Rightarrow> 'a list \<Rightarrow> 'a list" where
  "permute p xs = map (\<lambda>i. xs ! i) p"

definition cell :: "env \<Rightarrow> user \<Rightarrow> user \<Rightarrow> user io" where
  "cell E u v =
     io_bind (io_lift (is_online u))
       (\<lambda>a. io_bind (io_lift (is_online v))
         (\<lambda>b. if \<not> py_eq a b then io_bind (print_status_update E v) (\<lambda>_. io_return v)
              else io_return u))"

definition cell_ok :: "env \<Rightarrow> user \<Rightarrow> user \<Rightarrow> bool" where
  "cell_ok E u v = (case fst (cell E u v []) of Inl e \<Rightarrow> False | Inr w \<Rightarrow> True)"

definition cell_new :: "env \<Rightarrow> user \<Rightarrow> user \<Rightarrow> user" where
  "cell_new E u v = (case fst (cell E u v []) of Inl e \<Rightarrow> u | Inr w \<Rightarrow> w)"

definition cell_out :: "env \<Rightarrow> user \<Rightarrow> user \<Rightarrow> log" where
  "cell_out E u v = snd (cell E u v [])"

definition cycle_new :: "env \<Rightarrow> user list \<Rightarrow> user list \<Rightarrow> nat list \<Rightarrow> user list" where
  "cycle_new E users upd idx =
     map (\<lambda>j. if j \<in> set idx then cell_new E (users ! j) (upd ! j) else users ! j)
       [0..<length users]"

definition cycle_out :: "env \<Rightarrow> user list \<Rightarrow> user list \<Rightarrow> nat list \<Rightarrow> log" where
  "cycle_out E users upd idx = concat (map (\<lambda>i. cell_out E (users ! i) (upd ! i)) idx)"

definition status_ok :: "env \<Rightarrow> user \<Rightarrow> bool" where
  "status_ok E u = (case fst (print_status E u []) of Inl e \<Rightarrow> False | Inr r \<Rightarrow> True)"

definition status_out :: "env \<Rightarrow> user \<Rightarrow> log" where
  "status_out E u = snd (print_status E u [])"

section \<open>Properties of the builtins\<close>

text \<open>
  \<open>str\<close> of an integer is its decimal numeral: \<open>int\<close> reads it back as the same
  integer.
\<close>

lemma digit_val_char_of: "d < 10 \<Longrightarrow> digit_val (char_of (48 + d)) = Some d"
  by (simp add: digit_val_def Let_def)

lemma is_space_char_of: "(d :: nat) < 10 \<Longrightarrow> \<not> is_space (char_of (48 + d))"
  by (simp add: is_space_def Let_def)

lemma underscore_not_digit: "digit_val c = Some d \<Longrightarrow> c \<noteq> CHR ''_''"
  by (auto simp: digit_val_def Let_def split: if_splits)

lemma parse_digits_all_digits:
  "ds \<noteq> [] \<Longrightarrow> \<forall>c \<in> set ds. digit_val c \<noteq> None \<Longrightarrow>
     parse_digits acc ds = Some (foldl (\<lambda>a c. 10 * a + the (digit_val c)) acc ds)"
proof (induction acc ds rule: parse_digits.induct)
  case (1 acc)
  then show ?case by simp
next
  case (2 acc c)
  then show ?case by auto
next
  case (3 acc c c' cs)
  from "3.prems" obtain d d' where d: "digit_val c = Some d" "digit_val c' = Some d'"
    by auto
  then have nu: "c' \<noteq> CHR ''_''" by (auto dest: underscore_not_digit)
  from "3.IH"(2) [OF d(1) nu] "3.prems" d nu show ?case by simp
qed

lemma str_nat_digits:
  "str_nat n \<noteq> [] \<and> (\<forall>c \<in> set (str_nat n). digit_val c \<noteq> None \<and> \<not> is_space c)"
proof (induction n rule: str_nat.induct)
  case (1 n)
  show ?case
  proof (cases "n < 10")
    case True
    then show ?thesis
      by (subst (1 2) str_nat.simps) (simp add: digit_val_char_of is_space_char_of)
  next
    case False
    have m: "n mod 10 < 10" by simp
    from False "1.IH" show ?thesis
      by (subst (1 2) str_nat.simps)
         (simp add: digit_val_char_of [OF m] is_space_char_of [OF m])
  qed
qed

lemma str_nat_value:
  "foldl (\<lambda>a c. 10 * a + the (digit_val c)) 0 (str_nat n) = n"
proof (induction n rule: str_nat.induct)
  case (1 n)
  show ?case
  proof (cases "n < 10")
    case True
    then show ?thesis
      by (subst str_nat.simps) (simp add: digit_val_char_of)
  next
    case False
    have m: "n mod 10 < 10" by simp
    from False "1.IH" show ?thesis
      by (subst str_nat.simps) (simp add: digit_val_char_of [OF m])
  qed
qed

lemma parse_digits_str_nat: "parse_digits 0 (str_nat n) = Some n"
  using str_nat_digits [of n] by (simp add: parse_digits_all_digits str_nat_value)

lemma strip_no_space:
  assumes "\<forall>c \<in> set s. \<not> is_space c"
  shows "strip s = s"
proof -
  have "dropWhile is_space s = s"
    using assms by (cases s) auto
  moreover have "dropWhile is_space (rev s) = rev s"
    using assms by (cases "rev s") (auto simp: rev_swap [symmetric])
  ultimately show ?thesis by (simp add: strip_def)
qed

lemma int_of_str_str_int: "int_of_str (str_int n) = Some n"
proof (cases "n < 0")
  case False
  let ?s = "str_nat (nat n)"
  from str_nat_digits [of "nat n"] have ne: "?s \<noteq> []"
    and dg: "\<forall>c \<in> set ?s. digit_val c \<noteq> None \<and> \<not> is_space c" by auto
  then have st: "strip ?s = ?s" by (simp add: strip_no_space)
  from ne obtain c cs where cs: "?s = c # cs" by (cases ?s) auto
  with dg have "digit_val c \<noteq> None" by auto
  then have "c \<noteq> CHR ''-''" "c \<noteq> CHR ''+''"
    by (auto simp: digit_val_def Let_def)
  moreover have "parse_digits 0 (c # cs) = Some (nat n)"
    using parse_digits_str_nat [of "nat n"] cs by simp
  ultimately show ?thesis
    using False st cs by (simp add: int_of_str_def str_int_def)
next
  case True
  let ?s = "str_nat (nat (- n))"
  from str_nat_digits [of "nat (- n)"]
  have dg: "\<forall>c \<in> set ?s. \<not> is_space c" by auto
  have "\<not> is_space CHR ''-''" by (simp add: is_space_def Let_def)
  with dg have "strip (CHR ''-'' # ?s) = CHR ''-'' # ?s"
    by (simp add: strip_no_space)
  with True show ?thesis
    by (simp add: int_of_str_def str_int_def parse_digits_str_nat)
qed

section \<open>Properties of \<^verbatim>\<open>vk/user.py\<close>\<close>

subsection \<open>Field assignment goes through the parsers\<close>

lemma py_int_is_int: "py_int v = Inr w \<Longrightarrow> is_int w"
  by (cases v) (auto split: option.splits)

lemma parse_online_flag_is_bool: "parse_online_flag v = Inr w \<Longrightarrow> is_bool w"
  by (cases v) (auto simp: parse_online_flag_def split: if_splits)

lemma setitem_typed: "fields_typed u \<Longrightarrow> setitem E u f v = Inr u' \<Longrightarrow> fields_typed u'"
  by (cases f)
     (auto simp: setitem_def fields_typed_def update_conv' split: sum.splits
           dest: py_int_is_int parse_online_flag_is_bool)

lemma delitem_typed: "fields_typed u \<Longrightarrow> delitem u f = Inr u' \<Longrightarrow> fields_typed u'"
  by (auto simp: delitem_def fields_typed_def delete_conv' split: option.splits if_splits)

lemma mutate_typed: "fields_typed u \<Longrightarrow> fields_typed (mutate E u m)"
  by (cases m) (auto split: sum.splits dest: setitem_typed delitem_typed)

lemma foldl_mutate_typed: "fields_typed u \<Longrightarrow> fields_typed (foldl (mutate E) u ms)"
  by (induction ms arbitrary: u) (auto simp: mutate_typed)

text \<open>A user built from an API response has typed fields.\<close>

lemma from_api_response_loop_typed:
  "fields_typed u \<Longrightarrow> from_api_response_loop E source fs u = Inr u' \<Longrightarrow> fields_typed u'"
proof (induction fs arbitrary: u)
  case Nil
  then show ?case by simp
next
  case (Cons f fs)
  show ?case
  proof (cases "map_of source (str_field f)")
    case None
    with Cons show ?thesis by simp
  next
    case (Some v)
    with Cons.prems(2) obtain u1 where
      s: "setitem E u f v = Inr u1" and r: "from_api_response_loop E source fs u1 = Inr u'"
      by (auto split: sum.splits)
    from setitem_typed [OF Cons.prems(1) s] have "fields_typed u1" .
    from Cons.IH [OF this r] show ?thesis .
  qed
qed

lemma from_api_response_typed:
  "from_api_response E source = Inr u \<Longrightarrow> fields_typed u"
  unfolding from_api_response_def
  by (rule from_api_response_loop_typed [of User]) (simp_all add: fields_typed_def User_def)

text \<open>
  C9. Every item assignment stores the value its field's parser returns, so in a user
  built from \<open>User()\<close> by any sequence of mutations (and in any user whose fields are
  typed to begin with) the stored \<open>UID\<close> is an \<open>int\<close> and the stored \<open>ONLINE\<close> a
  \<open>bool\<close>. Assigning \<open>ONLINE\<close> from a string stores \<open>True\<close> for \<open>"True"\<close>, \<open>False\<close>
  for \<open>"False"\<close> and raises \<open>ValueError\<close> for every other string; a value that is not a
  string is stored as its \<open>bool\<close>.
\<close>

theorem user_fields_parsed:
  "fields_typed (foldl (mutate E) User ms) \<and>
   (fields_typed u \<longrightarrow> fields_typed (foldl (mutate E) u ms)) \<and>
   setitem E u ONLINE (PStr s) =
     (if s = ''True'' then Inr (AList.update ONLINE (PBool True) u)
      else if s = ''False'' then Inr (AList.update ONLINE (PBool False) u)
      else Inl ValueError) \<and>
   ((\<forall>t. x \<noteq> PStr t) \<longrightarrow>
      setitem E u ONLINE x = Inr (AList.update ONLINE (PBool (py_bool x)) u))"
proof -
  have "fields_typed User"
    by (simp add: fields_typed_def User_def)
  then have a: "fields_typed (foldl (mutate E) User ms)"
    by (rule foldl_mutate_typed)
  have b: "fields_typed u \<longrightarrow> fields_typed (foldl (mutate E) u ms)"
    by (simp add: foldl_mutate_typed)
  have c: "setitem E u ONLINE (PStr s) =
     (if s = ''True'' then Inr (AList.update ONLINE (PBool True) u)
      else if s = ''False'' then Inr (AList.update ONLINE (PBool False) u)
      else Inl ValueError)"
    by (auto simp: setitem_def parse_online_flag_def)
  have d: "(\<forall>t. x \<noteq> PStr t) \<longrightarrow>
      setitem E u ONLINE x = Inr (AList.update ONLINE (PBool (py_bool x)) u)"
    by (cases x) (auto simp: setitem_def parse_online_flag_def)
  from a b c d show ?thesis by blast
qed

theorem user_fields_parsed_witness:
  "foldl (mutate env0) User [SetItem UID (PStr ''42''), SetItem ONLINE (PInt 1), SetItem ONLINE (PStr ''yes'')] =
     [(UID, PInt 42), (ONLINE, PBool True)] \<and>
   fields_typed [(UID, PInt 42), (ONLINE, PBool True)] \<and>
   setitem env0 User ONLINE (PStr ''False'') = Inr [(ONLINE, PBool False)] \<and>
   setitem env0 User ONLINE (PStr ''true'') = Inl ValueError \<and>
   setitem env0 User ONLINE PNone = Inr [(ONLINE, PBool False)]"
proof -
  have e: "foldl (mutate env0) User [SetItem UID (PStr ''42''), SetItem ONLINE (PInt 1), SetItem ONLINE (PStr ''yes'')] =
     [(UID, PInt 42), (ONLINE, PBool True)]"
    by code_simp
  have n: "\<forall>t. PNone \<noteq> PStr t" by simp
  show ?thesis
    using user_fields_parsed [of env0 "[SetItem UID (PStr ''42''), SetItem ONLINE (PInt 1), SetItem ONLINE (PStr ''yes'')]" User "''False''" PNone]
          user_fields_parsed [of env0 "[]" User "''true''" PNone] e n
    by (simp add: User_def)
qed

subsection \<open>Equality and hashing of users\<close>

lemma py_eq_hash: "py_eq a b \<Longrightarrow> py_hash E a = py_hash E b"
  by (cases a; cases b) (auto simp: py_eq_def)

lemma user_eq_hash:
  "user_eq u v = Inr True \<Longrightarrow> user_hash E u = user_hash E v"
  by (auto simp: user_eq_def user_hash_def split: sum.splits dest: py_eq_hash)

lemma user_hash_eq_defined:
  "user_hash E u = Inr h \<Longrightarrow> user_hash E v = Inr h' \<Longrightarrow> \<exists>b. user_eq u v = Inr b"
  by (auto simp: user_eq_def user_hash_def split: sum.splits)

lemma py_eq_sym: "py_eq a b = py_eq b a"
  by (cases a; cases b) (auto simp: py_eq_def)

lemma user_eq_sym: "user_eq u v = Inr c \<Longrightarrow> user_eq v u = Inr c"
  by (auto simp: user_eq_def py_eq_sym split: sum.splits)

lemma dict_store_cases:
  assumes "dict_store h k v ((h', k', v') # d) = Inr d'"
  shows "d' = (h', k', v) # d \<or> (\<exists>r. dict_store h k v d = Inr r \<and> d' = (h', k', v') # r)"
proof (cases "h' = h")
  case True
  show ?thesis
  proof (cases "user_eq k' k")
    case (Inl e)
    with assms True show ?thesis by simp
  next
    case (Inr b)
    show ?thesis
    proof (cases b)
      case True
      with assms Inr \<open>h' = h\<close> show ?thesis by simp
    next
      case False
      with assms Inr \<open>h' = h\<close> show ?thesis by (cases "dict_store h k v d") simp_all
    qed
  qed
next
  case False
  with assms show ?thesis by (cases "dict_store h k v d") simp_all
qed

lemma dict_store_keys:
  "dict_store h k v d = Inr d' \<Longrightarrow>
     set (map (\<lambda>e. fst (snd e)) d') \<subseteq> insert k (set (map (\<lambda>e. fst (snd e)) d))"
proof (induction d arbitrary: d')
  case Nil
  then show ?case by auto
next
  case (Cons e d)
  obtain h' k' v' where e: "e = (h', k', v')" by (cases e)
  from Cons.prems dict_store_cases [of h k v h' k' v' d d']
  consider "d' = (h', k', v) # d"
    | r where "dict_store h k v d = Inr r" "d' = (h', k', v') # r"
    by (auto simp: e)
  then show ?case
  proof cases
    case 1
    then show ?thesis by (auto simp: e)
  next
    case 2
    from Cons.IH [OF 2(1)] show ?thesis
      unfolding 2(2) e by auto
  qed
qed

lemma dict_store_ok:
  assumes "hashes_ok E d" "no_dup d" "user_hash E k = Inr h"
  shows "\<exists>d'. dict_store h k v d = Inr d' \<and> hashes_ok E d' \<and> no_dup d'"
  using assms
proof (induction d)
  case Nil
  then show ?case by simp
next
  case (Cons e d)
  obtain h' k' v' where e: "e = (h', k', v')" by (cases e)
  from Cons.prems have hk': "user_hash E k' = Inr h'" and hd: "hashes_ok E d"
    and nd: "no_dup d" and fresh: "\<forall>x \<in> set d. user_eq k' (fst (snd x)) = Inr False"
    by (auto simp: e)
  from Cons.IH [OF hd nd Cons.prems(3)] obtain d' where
    d': "dict_store h k v d = Inr d'" "hashes_ok E d'" "no_dup d'" by blast
  from user_hash_eq_defined [OF hk' Cons.prems(3)] obtain b where b: "user_eq k' k = Inr b"
    by blast
  show ?case
  proof (cases "h' = h \<and> b")
    case True
    then show ?thesis
      using b hk' hd nd fresh by (simp add: e)
  next
    case False
    have nb: "user_eq k' k = Inr False"
    proof (cases b)
      case True
      with b have "user_hash E k' = user_hash E k" by (simp add: user_eq_hash)
      with hk' Cons.prems(3) False True show ?thesis by simp
    next
      case False
      with b show ?thesis by simp
    qed
    have "\<forall>x \<in> set d'. user_eq k' (fst (snd x)) = Inr False"
    proof
      fix x assume "x \<in> set d'"
      then have "fst (snd x) \<in> insert k (set (map (\<lambda>e. fst (snd e)) d))"
        using dict_store_keys [OF d'(1)] by auto
      then show "user_eq k' (fst (snd x)) = Inr False"
        using nb fresh by auto
    qed
    then show ?thesis
      using False b nb d' hk' by (auto simp: e)
  qed
qed

lemma plot_add_all_ok:
  "hashes_ok E d \<Longrightarrow> no_dup d \<Longrightarrow> plot_add_all E d calls = Inr d' \<Longrightarrow> hashes_ok E d' \<and> no_dup d'"
proof (induction calls arbitrary: d)
  case Nil
  then show ?case by simp
next
  case (Cons c calls)
  obtain u x where c: "c = (u, x)" by (cases c)
  from Cons.prems(3) obtain d1 where
    d1: "plot_add_user_duration E d u x = Inr d1" "plot_add_all E d1 calls = Inr d'"
    by (auto simp: c split: sum.splits)
  from d1(1) obtain h where h: "user_hash E u = Inr h" "dict_store h u x d = Inr d1"
    by (auto simp: plot_add_user_duration_def dict_setitem_def split: sum.splits)
  from dict_store_ok [OF Cons.prems(1,2) h(1), of x] h(2)
  have "hashes_ok E d1" "no_dup d1" by auto
  then show ?case using Cons.IH d1(2) by blast
qed

lemma no_dup_nth:
  "no_dup d \<Longrightarrow> i < j \<Longrightarrow> j < length d \<Longrightarrow>
     user_eq (fst (snd (d ! i))) (fst (snd (d ! j))) = Inr False"
proof (induction d arbitrary: i j)
  case Nil
  then show ?case by simp
next
  case (Cons e d)
  obtain h k v where e: "e = (h, k, v)" by (cases e)
  from Cons.prems obtain j' where j': "j = Suc j'" by (cases j) auto
  show ?case
  proof (cases i)
    case 0
    with Cons.prems j' show ?thesis by (auto simp: e)
  next
    case (Suc i')
    with Cons.prems j' Cons.IH [of i' j'] show ?thesis by (auto simp: e)
  qed
qed

text \<open>
  C8. Two users that both have a \<open>UID\<close> are equal exactly when their UIDs are, whatever
  their other fields hold, and equal users have equal hashes. So a \<open>PlotBuilder\<close> keeps
  one entry for two records with the same UID (the key of the first, the duration of
  the second), and after any run of \<open>add_user_duration\<close> calls no two entries of its
  dictionary are equal users.
\<close>

theorem user_eq_is_uid_eq:
  assumes "map_of u UID = Some a" and "map_of v UID = Some b"
  shows "user_eq u v = Inr (py_eq a b) \<and>
         (py_eq a b \<longrightarrow> user_hash E u = user_hash E v) \<and>
         (py_eq a b \<longrightarrow> user_hash E u = Inr h \<longrightarrow>
            plot_add_all E [] [(u, d1), (v, d2)] = Inr [(h, u, d2)]) \<and>
         (plot_add_all E [] calls = Inr d \<longrightarrow>
            (\<forall>i < length d. \<forall>j < length d. i \<noteq> j \<longrightarrow>
               user_eq (fst (snd (d ! i))) (fst (snd (d ! j))) = Inr False))"
proof -
  have eq: "user_eq u v = Inr (py_eq a b)"
    using assms by (simp add: user_eq_def get_uid_def getitem_def)
  have hash: "py_eq a b \<longrightarrow> user_hash E u = user_hash E v"
    using eq by (auto dest: user_eq_hash)
  have two: "py_eq a b \<longrightarrow> user_hash E u = Inr h \<longrightarrow>
            plot_add_all E [] [(u, d1), (v, d2)] = Inr [(h, u, d2)]"
    using eq hash by (auto simp: plot_add_user_duration_def dict_setitem_def)
  have all: "plot_add_all E [] calls = Inr d \<longrightarrow>
            (\<forall>i < length d. \<forall>j < length d. i \<noteq> j \<longrightarrow>
               user_eq (fst (snd (d ! i))) (fst (snd (d ! j))) = Inr False)"
  proof (intro impI allI)
    fix i j
    assume run: "plot_add_all E [] calls = Inr d" and ij: "i < length d" "j < length d" "i \<noteq> j"
    have nd: "no_dup d"
      using plot_add_all_ok [of E "[]" calls d] run by simp
    show "user_eq (fst (snd (d ! i))) (fst (snd (d ! j))) = Inr False"
    proof (cases "i < j")
      case True
      then show ?thesis using nd ij by (simp add: no_dup_nth)
    next
      case False
      with ij have "j < i" by simp
      then have "user_eq (fst (snd (d ! j))) (fst (snd (d ! i))) = Inr False"
        using nd ij by (simp add: no_dup_nth)
      then show ?thesis by (rule user_eq_sym)
    qed
  qed
  from eq hash two all show ?thesis by blast
qed

theorem user_eq_is_uid_eq_witness:
  "user_eq [(UID, PInt 7), (FIRST_NAME, PStr ''Ann'')]
           [(UID, PInt 7), (FIRST_NAME, PStr ''Bob''), (ONLINE, PBool True)] = Inr True \<and>
   user_hash env0 [(UID, PInt 7), (FIRST_NAME, PStr ''Ann'')] =
     user_hash env0 [(UID, PInt 7), (FIRST_NAME, PStr ''Bob''), (ONLINE, PBool True)] \<and>
   plot_add_all env0 []
     [([(UID, PInt 7), (FIRST_NAME, PStr ''Ann'')], 30 :: nat),
      ([(UID, PInt 7), (FIRST_NAME, PStr ''Bob''), (ONLINE, PBool True)], 45)] =
     Inr [(7, [(UID, PInt 7), (FIRST_NAME, PStr ''Ann'')], 45)] \<and>
   plot_add_all env0 []
     [([(UID, PInt 7), (FIRST_NAME, PStr ''Ann'')], 30 :: nat),
      ([(UID, PInt 8), (FIRST_NAME, PStr ''Cy'')], 5),
      ([(UID, PInt 7), (FIRST_NAME, PStr ''Bob''), (ONLINE, PBool True)], 45)] =
     Inr [(7, [(UID, PInt 7), (FIRST_NAME, PStr ''Ann'')], 45),
          (8, [(UID, PInt 8), (FIRST_NAME, PStr ''Cy'')], 5)] \<and>
   user_eq [(UID, PInt 7), (FIRST_NAME, PStr ''Ann'')] [(UID, PInt 8), (FIRST_NAME, PStr ''Cy'')] =
     Inr False"
proof -
  let ?ann = "[(UID, PInt 7), (FIRST_NAME, PStr ''Ann'')]"
  let ?bob = "[(UID, PInt 7), (FIRST_NAME, PStr ''Bob''), (ONLINE, PBool True)]"
  let ?cy = "[(UID, PInt 8), (FIRST_NAME, PStr ''Cy'')]"
  let ?calls = "[(?ann, 30 :: nat), (?cy, 5), (?bob, 45)]"
  let ?d = "[(7 :: int, ?ann, 45 :: nat), (8, ?cy, 5)]"
  have a: "map_of ?ann UID = Some (PInt 7)" by simp
  have b: "map_of ?bob UID = Some (PInt 7)" by simp
  have e: "py_eq (PInt 7) (PInt 7)" by (simp add: py_eq_def)
  have h: "user_hash env0 ?ann = Inr 7"
    by (simp add: user_hash_def get_uid_def getitem_def hash_int_def)
  have run: "plot_add_all env0 [] ?calls = Inr ?d"
    by code_simp
  have two: "\<forall>i<length ?d. \<forall>j<length ?d. i \<noteq> j \<longrightarrow>
               user_eq (fst (snd (?d ! i))) (fst (snd (?d ! j))) = Inr False"
    using user_eq_is_uid_eq [OF a b, of env0 7 "30 :: nat" 45 ?calls ?d] run by blast
  have ne: "user_eq ?ann ?cy = Inr False"
    using two [rule_format, of 0 "Suc 0"] by simp
  show ?thesis
    using user_eq_is_uid_eq [OF a b, of env0 7 "30 :: nat" 45 "[]" "[]"] e h run ne by simp
qed

subsection \<open>Screen names\<close>

text \<open>
  C10. For a user with a \<open>UID\<close>, \<open>get_screen_name\<close> never raises: it returns the stored
  screen name when there is one, and otherwise \<open>'id'\<close> followed by \<open>str\<close> of the UID,
  the decimal numeral when the UID is an \<open>int\<close> (the text \<open>int\<close> reads back as the
  UID).
\<close>

theorem get_screen_name_total:
  assumes "map_of u UID = Some v"
  shows "get_screen_name E u =
           Inr (case map_of u SCREEN_NAME of
                  Some s \<Rightarrow> s
                | None \<Rightarrow> PStr (''id'' @ py_str E v)) \<and>
         py_str E (PInt n) = str_int n \<and>
         int_of_str (py_str E (PInt n)) = Some n"
  using assms
  by (auto simp: get_screen_name_def has_screen_name_def contains_def getitem_def get_uid_def
           int_of_str_str_int split: option.splits)

theorem get_screen_name_total_witness:
  "get_screen_name env0 [(UID, PInt 42), (FIRST_NAME, PStr ''Ann'')] = Inr (PStr ''id42'') \<and>
   get_screen_name env0 [(UID, PInt 42), (SCREEN_NAME, PStr ''ann'')] = Inr (PStr ''ann'')"
proof -
  have a: "map_of [(UID, PInt 42), (FIRST_NAME, PStr ''Ann'')] UID = Some (PInt 42)" by simp
  have b: "map_of [(UID, PInt 42), (SCREEN_NAME, PStr ''ann'')] UID = Some (PInt 42)" by simp
  have s: "str_int 42 = ''42''" by code_simp
  show ?thesis
    using get_screen_name_total [OF a, of env0 42] get_screen_name_total [OF b, of env0 42] s
    by simp
qed


section \<open>Properties of the JSON output writer\<close>

lemma user_duration_to_object_expected:
  assumes "has_identity u"
  shows "user_duration_to_object str_d u d = Inr (expected_record str_d (u, d))"
  using assms
  by (auto simp: has_identity_def user_duration_to_object_def USER_FIELDS_def getitem_def
        DURATION_FIELD_def expected_record_def split: option.splits)

lemma expected_record_serializable:
  "has_identity u \<Longrightarrow> (k, v) \<in> set (expected_record str_d (u, d)) \<Longrightarrow> json_serializable v"
  by (auto simp: has_identity_def USER_FIELDS_def expected_record_def split: option.splits)

lemma json_add_all_array:
  assumes "list_all (\<lambda>c. has_identity (fst c)) calls"
  shows "json_add_all str_d w calls = Inr (w\<lparr>w_array := w_array w @ map (expected_record str_d) calls\<rparr>)"
  using assms
proof (induction calls arbitrary: w)
  case Nil
  then show ?case by simp
next
  case (Cons c calls)
  obtain u d where c: "c = (u, d)" by (cases c)
  from Cons.prems have u: "has_identity u" and rest: "list_all (\<lambda>c. has_identity (fst c)) calls"
    by (auto simp: c)
  show ?case
    by (simp add: c json_add_user_duration_def user_duration_to_object_expected [OF u]
          Cons.IH [OF rest])
qed

text \<open>
  C7. Adding records writes nothing: after any number of \<open>add_user_duration\<close> calls the
  file object holds what it held when the writer was opened. Closing the writer writes
  once, the JSON text of one array with one record per call in the order of the calls,
  each record the user's \<open>uid\<close>, \<open>first_name\<close>, \<open>last_name\<close> and \<open>screen_name\<close>
  followed by \<open>duration\<close>, the duration as a string.
\<close>

theorem json_writer_output:
  assumes "list_all (\<lambda>c. has_identity (fst c)) calls"
  shows "\<exists>w. json_add_all str_d (open_output_writer_json fd) calls = Inr w \<and>
             w_fd w = fd \<and>
             json_exit w =
               Inr (w\<lparr>w_fd :=
                        fd @ [JsonDumps
                                (map (\<lambda>(u, d).
                                        [(''uid'', the (map_of u UID)),
                                         (''first_name'', the (map_of u FIRST_NAME)),
                                         (''last_name'', the (map_of u LAST_NAME)),
                                         (''screen_name'', the (map_of u SCREEN_NAME)),
                                         (''duration'', PStr (str_d d))]) calls) 3]\<rparr>)"
proof -
  let ?w = "(open_output_writer_json fd)\<lparr>w_array := map (expected_record str_d) calls\<rparr>"
  have run: "json_add_all str_d (open_output_writer_json fd) calls = Inr ?w"
    using json_add_all_array [OF assms, of str_d "open_output_writer_json fd"]
    by (simp add: open_output_writer_json_def)
  have ser: "list_all (list_all (\<lambda>kv. json_serializable (snd kv))) (map (expected_record str_d) calls)"
    using assms by (fastforce simp: list_all_iff dest: expected_record_serializable)
  have same: "expected_record str_d =
        (\<lambda>(u, d).
               [(''uid'', the (map_of u UID)),
                (''first_name'', the (map_of u FIRST_NAME)),
                (''last_name'', the (map_of u LAST_NAME)),
                (''screen_name'', the (map_of u SCREEN_NAME)),
                (''duration'', PStr (str_d d))])"
    by (auto simp: expected_record_def fun_eq_iff)
  have ex: "json_exit ?w = Inr (?w\<lparr>w_fd := fd @ [JsonDumps (map (expected_record str_d) calls) 3]\<rparr>)"
    using ser by (simp add: json_exit_def json_dumps_def open_output_writer_json_def)
  have "json_add_all str_d (open_output_writer_json fd) calls = Inr ?w \<and> w_fd ?w = fd \<and>
        json_exit ?w = Inr (?w\<lparr>w_fd := fd @ [JsonDumps (map (expected_record str_d) calls) 3]\<rparr>)"
    using run ex by (simp add: open_output_writer_json_def)
  then show ?thesis
    unfolding same by (rule exI)
qed

theorem json_writer_output_witness:
  "json_add_all str_int (open_output_writer_json [])
     [([(UID, PInt 7), (FIRST_NAME, PStr ''Ann''), (LAST_NAME, PStr ''Lee''),
        (SCREEN_NAME, PStr ''ann'')], 75)] =
     Inr \<lparr>w_fd = [],
          w_array = [[(''uid'', PInt 7), (''first_name'', PStr ''Ann''), (''last_name'', PStr ''Lee''),
                      (''screen_name'', PStr ''ann''), (''duration'', PStr ''75'')]]\<rparr> \<and>
   json_exit \<lparr>w_fd = [],
          w_array = [[(''uid'', PInt 7), (''first_name'', PStr ''Ann''), (''last_name'', PStr ''Lee''),
                      (''screen_name'', PStr ''ann''), (''duration'', PStr ''75'')]]\<rparr> =
     Inr \<lparr>w_fd = [JsonDumps [[(''uid'', PInt 7), (''first_name'', PStr ''Ann''),
                               (''last_name'', PStr ''Lee''), (''screen_name'', PStr ''ann''),
                               (''duration'', PStr ''75'')]] 3],
          w_array = [[(''uid'', PInt 7), (''first_name'', PStr ''Ann''), (''last_name'', PStr ''Lee''),
                      (''screen_name'', PStr ''ann''), (''duration'', PStr ''75'')]]\<rparr>"
proof -
  let ?u = "[(UID, PInt 7), (FIRST_NAME, PStr ''Ann''), (LAST_NAME, PStr ''Lee''),
             (SCREEN_NAME, PStr ''ann'')]"
  have h: "list_all (\<lambda>c. has_identity (fst c)) [(?u, 75 :: int)]"
    by (simp add: has_identity_def USER_FIELDS_def)
  have s: "str_int 75 = ''75''" by code_simp
  from json_writer_output [OF h, of str_int "[]"] obtain w where
    w: "json_add_all str_int (open_output_writer_json []) [(?u, 75)] = Inr w"
       "w_fd w = []"
       "json_exit w = Inr (w\<lparr>w_fd := [] @ [JsonDumps
                                (map (\<lambda>(u, d).
                                        [(''uid'', the (map_of u UID)),
                                         (''first_name'', the (map_of u FIRST_NAME)),
                                         (''last_name'', the (map_of u LAST_NAME)),
                                         (''screen_name'', the (map_of u SCREEN_NAME)),
                                         (''duration'', PStr (str_int d))]) [(?u, 75)]) 3]\<rparr>)"
    by blast
  have e: "json_add_all str_int (open_output_writer_json []) [(?u, 75)] =
     Inr \<lparr>w_fd = [],
          w_array = [[(''uid'', PInt 7), (''first_name'', PStr ''Ann''), (''last_name'', PStr ''Lee''),
                      (''screen_name'', PStr ''ann''), (''duration'', PStr ''75'')]]\<rparr>"
    by (simp add: json_add_user_duration_def user_duration_to_object_def USER_FIELDS_def
          getitem_def DURATION_FIELD_def open_output_writer_json_def s)
  with w(1) have weq: "w = \<lparr>w_fd = [],
          w_array = [[(''uid'', PInt 7), (''first_name'', PStr ''Ann''), (''last_name'', PStr ''Lee''),
                      (''screen_name'', PStr ''ann''), (''duration'', PStr ''75'')]]\<rparr>"
    by simp
  show ?thesis
    using e w(3) unfolding weq by (simp add: s)
qed


section \<open>Properties of \<^verbatim>\<open>track_status.py\<close>\<close>

subsection \<open>The poll interval\<close>

text \<open>
  C6. \<open>parse_timeout\<close> returns the integer its argument denotes exactly when that integer
  is at least 1, and raises \<open>ArgumentTypeError\<close> exactly when the argument denotes an
  integer below 1 (an argument that denotes no integer raises the \<open>ValueError\<close> of
  \<open>int\<close>). Without the flag the interval is 5.
\<close>

theorem parse_timeout_spec:
  "(parse_timeout s = Inr n \<longleftrightarrow> int_of_str s = Some n \<and> 1 \<le> n) \<and>
   (parse_timeout s = Inl ArgumentTypeError \<longleftrightarrow> (\<exists>k. int_of_str s = Some k \<and> k < 1)) \<and>
   timeout_option (Some s) = parse_timeout s \<and>
   timeout_option None = Inr 5"
  by (auto simp: parse_timeout_def timeout_option_def DEFAULT_TIMEOUT_def split: option.splits)

theorem parse_timeout_spec_witness:
  "parse_timeout ''30'' = Inr 30 \<and> parse_timeout ''0'' = Inl ArgumentTypeError \<and>
   parse_timeout ''-3'' = Inl ArgumentTypeError"
proof -
  have a: "int_of_str ''30'' = Some 30" by code_simp
  have b: "int_of_str ''0'' = Some 0" by code_simp
  have c: "int_of_str ''-3'' = Some (- 3)" by code_simp
  show ?thesis
    using parse_timeout_spec [of "''30''" 30] parse_timeout_spec [of "''0''" 0]
      parse_timeout_spec [of "''-3''" 0] a b c
    by simp
qed

subsection \<open>Exit status\<close>

text \<open>
  C4. When the run loop raises \<open>KeyboardInterrupt\<close> the script ends with status 0 and
  logs nothing more; when it raises anything else the exception is logged and the
  status is 1.
\<close>

theorem main_exit_status:
  assumes "fst (loop_update_status E polls []) = Inl e"
  shows "(e = KeyboardInterrupt \<longrightarrow>
            main E polls = (Some 0, snd (loop_update_status E polls []))) \<and>
         (e \<noteq> KeyboardInterrupt \<longrightarrow>
            main E polls = (Some 1, snd (loop_update_status E polls []) @ [Exception e]))"
  using assms by (cases "loop_update_status E polls []") (simp add: main_def)

theorem main_exit_status_witness:
  "main env0 [Fetched [alice_online], Raises KeyboardInterrupt] =
     (Some 0, [Info ''Alice is ONLINE'']) \<and>
   main env0 [Fetched [alice_online], Raises APIConnectionError] =
     (Some 1, [Info ''Alice is ONLINE'', Exception APIConnectionError])"
proof -
  have a: "loop_update_status env0 [Fetched [alice_online], Raises KeyboardInterrupt] [] =
             (Inl KeyboardInterrupt, [Info ''Alice is ONLINE''])"
    by code_simp
  have b: "loop_update_status env0 [Fetched [alice_online], Raises APIConnectionError] [] =
             (Inl APIConnectionError, [Info ''Alice is ONLINE''])"
    by code_simp
  show ?thesis
    using main_exit_status [of env0 "[Fetched [alice_online], Raises KeyboardInterrupt]" KeyboardInterrupt]
      main_exit_status [of env0 "[Fetched [alice_online], Raises APIConnectionError]" APIConnectionError]
      a b
    by simp
qed

subsection \<open>A user going offline\<close>

lemma went_offline_raises:
  assumes "i < length users" and "is_online (users ! i) = Inr (PBool True)"
    and "is_online (updated_users ! i) = Inr (PBool False)"
  shows "update_at E updated_users i users lg = (Inl NameError, lg)"
  using assms
  by (simp add: update_at_def io_bind_def io_lift_def io_return_def io_raise_def py_eq_def
        print_status_update_def user_went_offline_def)

text \<open>
  C1. A user stored online and acquired offline: the update handler is entered, and
  \<open>user_went_offline\<close> raises \<open>NameError\<close> in place of logging the went-offline
  message; the run ends with status 1. The opposite transition is logged.
\<close>

theorem went_offline_raises_NameError:
  "loop_update_status env0 [Fetched [alice_online], Fetched [alice_offline]] [] =
     (Inl NameError, [Info ''Alice is ONLINE'']) \<and>
   main env0 [Fetched [alice_online], Fetched [alice_offline]] =
     (Some 1, [Info ''Alice is ONLINE'', Exception NameError]) \<and>
   loop_update_status env0 [Fetched [alice_offline], Fetched [alice_online]] [] =
     (Inr [alice_online],
      [Info ''Alice is OFFLINE'', Info ''Alice was last seen at <object>'',
       Info ''Alice went ONLINE''])"
  by code_simp


subsection \<open>The first acquisition and acquisitions without a change\<close>

lemma format_user_full_name:
  "map_of u FIRST_NAME \<noteq> None \<Longrightarrow> format_user E u = Inr (full_name E u)"
  by (auto simp: format_user_def has_last_name_def contains_def getitem_def get_last_name_def
        get_first_name_def full_name_def split: option.splits)

lemma print_status_printable:
  assumes "printable u"
  shows "print_status E u lg = (Inr (), lg @ initial_records E u)"
proof -
  from assms obtain b where b: "map_of u ONLINE = Some b" and f: "map_of u FIRST_NAME \<noteq> None"
    and l: "py_bool b \<or> map_of u LAST_SEEN \<noteq> None"
    by (auto simp: printable_def split: option.splits)
  note fmt = format_user_full_name [OF f, of E]
  show ?thesis
  proof (cases "py_bool b")
    case True
    then show ?thesis
      using b fmt
      by (simp add: print_status_def is_online_def getitem_def io_bind_def io_lift_def
            io_return_def user_is_online_def format_user_is_online_def logging_info_def
            initial_records_def)
  next
    case False
    with l obtain s where s: "map_of u LAST_SEEN = Some s" by auto
    from False show ?thesis
      using b fmt s
      by (simp add: print_status_def is_online_def getitem_def io_bind_def io_lift_def
            io_return_def user_is_offline_def format_user_is_offline_def logging_info_def
            format_user_last_seen_def get_last_seen_def initial_records_def)
  qed
qed

lemma print_all_printable:
  "list_all printable users \<Longrightarrow>
     print_all E users lg = (Inr (), lg @ concat (map (initial_records E) users))"
proof (induction users arbitrary: lg)
  case Nil
  then show ?case by (simp add: io_return_def)
next
  case (Cons u users)
  then show ?case
    by (simp add: io_bind_def print_status_printable)
qed

lemma update_at_same_flag:
  assumes "i < length users" and "same_flag (users ! i) (updated_users ! i)"
  shows "update_at E updated_users i users lg = (Inr users, lg)"
  using assms
  by (auto simp: update_at_def same_flag_def io_bind_def io_lift_def io_return_def
        split: sum.splits)

lemma for_range_same_flag:
  assumes "\<forall>i \<in> set idx. i < length users \<and> same_flag (users ! i) (updated_users ! i)"
  shows "for_range E updated_users idx users lg = (Inr users, lg)"
  using assms
  by (induction idx) (simp_all add: io_return_def io_bind_def update_at_same_flag)

lemma update_cycle_unchanged:
  assumes "unchanged users updated_users"
  shows "update_cycle E updated_users users lg = (Inr users, lg)"
proof -
  have "\<forall>i \<in> set [0..<length updated_users].
          i < length users \<and> same_flag (users ! i) (updated_users ! i)"
    using assms by (auto simp: unchanged_def list_all_length)
  then show ?thesis
    unfolding update_cycle_def by (rule for_range_same_flag)
qed

lemma while_true_unchanged:
  "list_all (unchanged users) later \<Longrightarrow>
     while_true E (map Fetched later) users lg = (Inr users, lg)"
  by (induction later) (simp_all add: io_return_def io_bind_def update_cycle_unchanged)

text \<open>
  For users that carry the fields \<open>print_status\<close> reads: the first acquisition logs
  one initial-state notification per user, in the order of the acquisition (the
  is-ONLINE record of an online user, the is-OFFLINE record with its last-seen line of
  an offline one) and no went-ONLINE or went-OFFLINE record; every later acquisition in
  which no online flag differs from the stored one at the same index logs nothing and
  leaves the stored list as it is.
\<close>

lemma initial_then_silent:
  assumes "list_all printable users" and "list_all (unchanged users) later"
  shows "loop_update_status E (Fetched users # map Fetched later) lg =
           (Inr users, lg @ concat (map (initial_records E) users))"
  using assms
  by (simp add: io_bind_def print_all_printable while_true_unchanged)

lemma initial_then_silent_example:
  "loop_update_status env0
     [Fetched [alice_online, bob_offline], Fetched [alice_online, bob_offline],
      Fetched [alice_online, bob_offline]] [] =
     (Inr [alice_online, bob_offline],
      [Info ''Alice is ONLINE'', Info ''Ray Bob is OFFLINE'',
       Info ''Ray Bob was last seen at <object>''])"
proof -
  have p: "list_all printable [alice_online, bob_offline]"
    by (simp add: printable_def alice_online_def bob_offline_def)
  have u: "list_all (unchanged [alice_online, bob_offline])
             [[alice_online, bob_offline], [alice_online, bob_offline]]"
    by (simp add: unchanged_def same_flag_def is_online_def getitem_def py_eq_def
          alice_online_def bob_offline_def)
  have r: "concat (map (initial_records env0) [alice_online, bob_offline]) =
      [Info ''Alice is ONLINE'', Info ''Ray Bob is OFFLINE'',
       Info ''Ray Bob was last seen at <object>'']"
    by (simp add: initial_records_def full_name_def alice_online_def bob_offline_def env0_def)
  show ?thesis
    using initial_then_silent [OF p u, of env0 "[]"] r by simp
qed

text \<open>
  C2. The first acquisition does not give every user an initial-state notification.
  \<open>user_is_offline\<close> reads \<open>last_seen\<close> without asking \<open>has_last_seen\<close>, where
  \<open>format_user\<close> asks \<open>has_last_name\<close> before it reads the last name: for an offline
  user whose response held no \<open>last_seen\<close> the is-OFFLINE line is logged, the lookup
  raises \<open>KeyError\<close>, the users after it get no notification and the script ends with
  status 1. With \<open>last_seen\<close> present the same acquisition logs one notification per
  user.
\<close>

theorem offline_without_last_seen_raises:
  "from_api_response env0 carl_response = Inr carl_offline \<and>
   loop_update_status env0 [Fetched [carl_offline, alice_online]] [] =
     (Inl KeyError, [Info ''Carl is OFFLINE'']) \<and>
   main env0 [Fetched [carl_offline, alice_online]] =
     (Some 1, [Info ''Carl is OFFLINE'', Exception KeyError]) \<and>
   loop_update_status env0 [Fetched [alice_offline, bob_online]] [] =
     (Inr [alice_offline, bob_online],
      [Info ''Alice is OFFLINE'', Info ''Alice was last seen at <object>'',
       Info ''Ray Bob is ONLINE''])"
  by code_simp

subsection \<open>A user whose flag did not change\<close>

lemma for_range_append:
  "for_range E upd (xs @ ys) users lg =
     io_bind (for_range E upd xs users) (for_range E upd ys) lg"
proof (induction xs arbitrary: users lg)
  case Nil
  then show ?case by (simp add: io_bind_def io_return_def)
next
  case (Cons x xs)
  show ?case
  proof (cases "update_at E upd x users lg")
    case (Pair r lg1)
    then show ?thesis
      using Cons.IH by (cases r) (simp_all add: io_bind_def)
  qed
qed

lemma update_at_frame:
  assumes "update_at E upd j users lg = (Inr us, lg1)"
  shows "length us = length users \<and> (i \<noteq> j \<longrightarrow> us ! i = users ! i)"
  using assms
  by (auto simp: update_at_def io_bind_def io_lift_def io_return_def io_raise_def
        split: if_splits sum.splits prod.splits)

lemma for_range_frame:
  assumes "for_range E upd idx users lg = (Inr us, lg1)" and "i \<notin> set idx"
  shows "length us = length users \<and> us ! i = users ! i"
  using assms
proof (induction idx arbitrary: users lg)
  case Nil
  then show ?case by (simp add: io_return_def)
next
  case (Cons j idx)
  from Cons.prems(1) obtain us0 lg0 where
    step: "update_at E upd j users lg = (Inr us0, lg0)"
    and rest: "for_range E upd idx us0 lg0 = (Inr us, lg1)"
    by (auto simp: io_bind_def split: prod.splits sum.splits)
  from Cons.prems(2) have ij: "i \<noteq> j" and notin: "i \<notin> set idx" by auto
  from update_at_frame [OF step, of i] ij
  have "length us0 = length users" "us0 ! i = users ! i" by auto
  with Cons.IH [OF rest notin] show ?case by simp
qed

lemma for_range_skip:
  assumes "i < length users" and "same_flag (users ! i) (upd ! i)" and "i \<notin> set xs"
  shows "for_range E upd (xs @ i # ys) users lg = for_range E upd (xs @ ys) users lg"
proof (cases "for_range E upd xs users lg")
  case (Pair r lg1)
  show ?thesis
  proof (cases r)
    case (Inl e)
    with Pair show ?thesis by (simp add: for_range_append io_bind_def)
  next
    case (Inr us)
    with Pair have run: "for_range E upd xs users lg = (Inr us, lg1)" by simp
    from for_range_frame [OF run assms(3)]
    have "length us = length users" "us ! i = users ! i" by auto
    with assms have "update_at E upd i us lg1 = (Inr us, lg1)"
      by (simp add: update_at_same_flag)
    with run show ?thesis
      by (simp add: for_range_append io_bind_def)
  qed
qed

text \<open>
  C5. When the new online flag of the user at an index equals the stored one, the loop
  body at that index returns the stored list and the log as they were; the whole cycle
  is the cycle that skips the index, so it logs nothing for that user, and the stored
  snapshot at the index after the cycle is the one stored before it.
\<close>

theorem no_change_is_skipped:
  assumes "i < length updated_users" and "i < length users"
    and "same_flag (users ! i) (updated_users ! i)"
  shows "update_at E updated_users i users lg = (Inr users, lg) \<and>
         update_cycle E updated_users users lg =
           for_range E updated_users ([0..<i] @ [Suc i..<length updated_users]) users lg \<and>
         (update_cycle E updated_users users lg = (Inr users', lg') \<longrightarrow> users' ! i = users ! i)"
proof -
  let ?n = "length updated_users"
  have body: "update_at E updated_users i users lg = (Inr users, lg)"
    using assms(2,3) by (rule update_at_same_flag)
  have split: "[0..<?n] = [0..<i] @ i # [Suc i..<?n]"
    using assms(1) by (metis upt_conv_Cons upt_add_eq_append le0 add_0 le_add_diff_inverse less_imp_le)
  have skip: "update_cycle E updated_users users lg =
           for_range E updated_users ([0..<i] @ [Suc i..<?n]) users lg"
    unfolding update_cycle_def split
    using assms(2,3) by (simp add: for_range_skip)
  have frame: "update_cycle E updated_users users lg = (Inr users', lg') \<longrightarrow> users' ! i = users ! i"
  proof
    assume "update_cycle E updated_users users lg = (Inr users', lg')"
    with skip have "for_range E updated_users ([0..<i] @ [Suc i..<?n]) users lg = (Inr users', lg')"
      by simp
    from for_range_frame [OF this, of i] show "users' ! i = users ! i" by simp
  qed
  from body skip frame show ?thesis by blast
qed

theorem no_change_is_skipped_witness:
  "update_at env0 [alice_online, bob_online] 0 [alice_online, bob_offline] [] =
     (Inr [alice_online, bob_offline], []) \<and>
   update_cycle env0 [alice_online, bob_online] [alice_online, bob_offline] [] =
     (Inr [alice_online, bob_online], [Info ''Ray Bob went ONLINE''])"
proof -
  have a: "(0 :: nat) < length [alice_online, bob_online]" by simp
  have b: "(0 :: nat) < length [alice_online, bob_offline]" by simp
  have c: "same_flag ([alice_online, bob_offline] ! 0) ([alice_online, bob_online] ! 0)"
    by (simp add: same_flag_def is_online_def getitem_def alice_online_def py_eq_def)
  have r: "for_range env0 [alice_online, bob_online] [Suc 0] [alice_online, bob_offline] [] =
     (Inr [alice_online, bob_online], [Info ''Ray Bob went ONLINE''])"
    by code_simp
  show ?thesis
    using no_change_is_skipped [OF a b c, of env0 "[]" "[alice_online, bob_online]" "[Info ''Ray Bob went ONLINE'']"] r
    by simp
qed


subsection \<open>The order in which an acquisition lists the users\<close>

lemma print_status_update_app:
  "print_status_update E v lg =
     (fst (print_status_update E v []), lg @ snd (print_status_update E v []))"
  by (auto simp: print_status_update_def io_bind_def io_lift_def io_return_def io_raise_def
        user_went_online_def user_went_offline_def logging_info_def
        split: sum.splits)

lemma cell_app: "cell E u v lg = (fst (cell E u v []), lg @ snd (cell E u v []))"
proof -
  obtain r out where p: "print_status_update E v [] = (r, out)"
    by (cases "print_status_update E v []")
  have q: "print_status_update E v lg = (r, lg @ out)"
    using print_status_update_app [of E v lg] p by simp
  show ?thesis
    by (cases r) (auto simp: cell_def io_bind_def io_lift_def io_return_def io_raise_def p q
        split: sum.splits)
qed

lemma cell_value:
  "cell_ok E u v \<Longrightarrow> cell E u v lg = (Inr (cell_new E u v), lg @ cell_out E u v)"
  using cell_app [of E u v lg]
  by (auto simp: cell_ok_def cell_new_def cell_out_def split: sum.splits)

lemma cell_fail:
  "\<not> cell_ok E u v \<Longrightarrow> \<exists>e l. cell E u v lg = (Inl e, l)"
  using cell_app [of E u v lg]
  by (auto simp: cell_ok_def split: sum.splits)

lemma update_at_cell:
  assumes "i < length users"
  shows "update_at E upd i users lg =
           (case cell E (users ! i) (upd ! i) lg of
              (Inl e, l) \<Rightarrow> (Inl e, l)
            | (Inr w, l) \<Rightarrow> (Inr (users[i := w]), l))"
  using assms
  by (auto simp: update_at_def cell_def io_bind_def io_lift_def io_return_def io_raise_def
        split: sum.splits prod.splits)

lemma update_at_Inr:
  assumes "update_at E upd j users lg = (Inr us0, lg0)"
  shows "j < length users \<and> cell_ok E (users ! j) (upd ! j) \<and>
         us0 = users[j := cell_new E (users ! j) (upd ! j)] \<and>
         lg0 = lg @ cell_out E (users ! j) (upd ! j)"
proof -
  have j: "j < length users"
    using assms by (auto simp: update_at_def io_raise_def split: if_splits)
  show ?thesis
  proof (cases "cell_ok E (users ! j) (upd ! j)")
    case True
    with assms j show ?thesis
      by (simp add: update_at_cell cell_value)
  next
    case False
    from cell_fail [OF False, of lg] assms j show ?thesis
      by (auto simp: update_at_cell)
  qed
qed

lemma for_range_ok:
  assumes "for_range E upd idx users lg = (Inr us, lg1)" and "distinct idx"
  shows "\<forall>i \<in> set idx. i < length users \<and> cell_ok E (users ! i) (upd ! i)"
  using assms
proof (induction idx arbitrary: users lg)
  case Nil
  then show ?case by simp
next
  case (Cons j idx)
  from Cons.prems(1) obtain us0 lg0 where
    step: "update_at E upd j users lg = (Inr us0, lg0)"
    and rest: "for_range E upd idx us0 lg0 = (Inr us, lg1)"
    by (auto simp: io_bind_def split: prod.splits sum.splits)
  from update_at_Inr [OF step] have j: "j < length users" "cell_ok E (users ! j) (upd ! j)"
    and us0: "us0 = users[j := cell_new E (users ! j) (upd ! j)]" by auto
  from Cons.prems(2) have d: "distinct idx" and nj: "j \<notin> set idx" by auto
  from Cons.IH [OF rest d]
  have ih: "\<forall>i \<in> set idx. i < length us0 \<and> cell_ok E (us0 ! i) (upd ! i)" .
  show ?case
  proof
    fix i assume i: "i \<in> set (j # idx)"
    show "i < length users \<and> cell_ok E (users ! i) (upd ! i)"
    proof (cases "i = j")
      case True
      with j show ?thesis by simp
    next
      case False
      with i have "i \<in> set idx" by simp
      with ih have "i < length us0" "cell_ok E (us0 ! i) (upd ! i)" by auto
      with False show ?thesis by (simp add: us0)
    qed
  qed
qed

lemma for_range_value:
  assumes "distinct idx"
    and "\<forall>i \<in> set idx. i < length users \<and> cell_ok E (users ! i) (upd ! i)"
  shows "for_range E upd idx users lg =
           (Inr (cycle_new E users upd idx), lg @ cycle_out E users upd idx)"
  using assms
proof (induction idx arbitrary: users lg)
  case Nil
  then show ?case by (simp add: io_return_def cycle_new_def cycle_out_def map_nth)
next
  case (Cons j idx)
  let ?w = "cell_new E (users ! j) (upd ! j)"
  let ?us0 = "users[j := ?w]"
  from Cons.prems have j: "j < length users" "cell_ok E (users ! j) (upd ! j)"
    and d: "distinct idx" and nj: "j \<notin> set idx"
    and rest: "\<forall>i \<in> set idx. i < length users \<and> cell_ok E (users ! i) (upd ! i)"
    by auto
  have step: "update_at E upd j users lg = (Inr ?us0, lg @ cell_out E (users ! j) (upd ! j))"
    using j by (simp add: update_at_cell cell_value)
  have same: "\<forall>i \<in> set idx. ?us0 ! i = users ! i"
    using nj by (metis nth_list_update_neq)
  have rest0: "\<forall>i \<in> set idx. i < length ?us0 \<and> cell_ok E (?us0 ! i) (upd ! i)"
    using rest same by simp
  have new: "cycle_new E ?us0 upd idx = cycle_new E users upd (j # idx)"
    using nj j by (auto simp: cycle_new_def nth_list_update)
  have out: "cycle_out E ?us0 upd idx = cycle_out E users upd idx"
    using same by (auto simp: cycle_out_def intro!: arg_cong [where f = concat])
  show ?case
    using step Cons.IH [OF d rest0] new out
    by (simp add: io_bind_def cycle_out_def)
qed

lemma mset_concat_map_cong:
  assumes "mset xs = mset ys"
  shows "mset (concat (map f xs)) = mset (concat (map f ys))"
proof -
  have "mset (concat (map f zs)) = (\<Sum>x \<in># mset zs. mset (f x))" for zs
    by (induction zs) auto
  with assms show ?thesis by simp
qed

lemma perm_length: "mset p = mset [0..<n] \<Longrightarrow> length p = n"
  by (drule mset_eq_length) simp

lemma perm_set: "mset p = mset [0..<n] \<Longrightarrow> set p = {0..<n}"
  by (drule mset_eq_setD) simp

lemma perm_nth: "mset p = mset [0..<n] \<Longrightarrow> j < n \<Longrightarrow> p ! j < n"
  using perm_length [of p n] perm_set [of p n] by (metis atLeastLessThan_iff nth_mem)

lemma length_permute: "length (permute p xs) = length p"
  by (simp add: permute_def)

lemma permute_nth: "j < length p \<Longrightarrow> permute p xs ! j = xs ! (p ! j)"
  by (simp add: permute_def)

lemma mset_permute:
  assumes "mset p = mset [0..<length xs]"
  shows "mset (permute p xs) = mset xs"
proof -
  have "mset (permute p xs) = image_mset ((!) xs) (mset p)"
    by (simp add: permute_def)
  also have "\<dots> = image_mset ((!) xs) (mset [0..<length xs])"
    by (simp only: assms)
  also have "\<dots> = mset (map ((!) xs) [0..<length xs])"
    by (simp only: mset_map)
  also have "\<dots> = mset xs"
    by (simp only: map_nth)
  finally show ?thesis .
qed

lemma map_perm_index:
  assumes "length p = n"
  shows "map (\<lambda>j. g (p ! j)) [0..<n] = map g p"
proof -
  have "map g p = map g (map (\<lambda>j. p ! j) [0..<length p])"
    by (simp only: map_nth)
  then show ?thesis
    using assms by (simp add: comp_def)
qed

lemma cycle_perm:
  assumes perm: "mset p = mset [0..<n]"
    and lu: "length users = n" and la: "length upd = n"
    and run: "update_cycle E upd users lg = (Inr us, lg1)"
  shows "\<exists>out out'. lg1 = lg @ out \<and> length us = n \<and>
           update_cycle E (permute p upd) (permute p users) lg' =
             (Inr (permute p us), lg' @ out') \<and>
           mset out' = mset out"
proof -
  let ?idx = "[0..<n]"
  let ?users' = "permute p users" and ?upd' = "permute p upd"
  let ?g = "\<lambda>i. cell_out E (users ! i) (upd ! i)"
  have lp: "length p = n" using perm by (rule perm_length)
  from run have run0: "for_range E upd ?idx users lg = (Inr us, lg1)"
    by (simp add: update_cycle_def la)
  have ok: "\<forall>i \<in> set ?idx. i < length users \<and> cell_ok E (users ! i) (upd ! i)"
    using for_range_ok [OF run0] by simp
  from for_range_value [OF _ ok, of lg] run0
  have us: "us = cycle_new E users upd ?idx" and lg1: "lg1 = lg @ cycle_out E users upd ?idx"
    by simp_all
  have len_us: "length us = n"
    by (simp add: us cycle_new_def lu)
  have ok': "\<forall>j \<in> set ?idx. j < length ?users' \<and> cell_ok E (?users' ! j) (?upd' ! j)"
  proof
    fix j assume "j \<in> set ?idx"
    then have j: "j < n" by simp
    then have pj: "p ! j < n" using perm by (simp add: perm_nth)
    with ok have "cell_ok E (users ! (p ! j)) (upd ! (p ! j))" by simp
    with j lp show "j < length ?users' \<and> cell_ok E (?users' ! j) (?upd' ! j)"
      by (simp add: length_permute permute_nth)
  qed
  have run': "for_range E ?upd' ?idx ?users' lg' =
      (Inr (cycle_new E ?users' ?upd' ?idx), lg' @ cycle_out E ?users' ?upd' ?idx)"
    using for_range_value [OF _ ok', of lg'] by simp
  have new: "cycle_new E ?users' ?upd' ?idx = permute p us"
  proof (rule nth_equalityI)
    show "length (cycle_new E ?users' ?upd' ?idx) = length (permute p us)"
      by (simp add: cycle_new_def length_permute)
  next
    fix j assume "j < length (cycle_new E ?users' ?upd' ?idx)"
    then have j: "j < n" by (simp add: cycle_new_def length_permute lp)
    then have pj: "p ! j < n" using perm by (simp add: perm_nth)
    have "cycle_new E ?users' ?upd' ?idx ! j = cell_new E (users ! (p ! j)) (upd ! (p ! j))"
      using j lp by (simp add: cycle_new_def length_permute permute_nth)
    also have "\<dots> = us ! (p ! j)"
      using pj by (simp add: us cycle_new_def lu)
    also have "\<dots> = permute p us ! j"
      using j lp by (simp add: permute_nth)
    finally show "cycle_new E ?users' ?upd' ?idx ! j = permute p us ! j" .
  qed
  have "cycle_out E ?users' ?upd' ?idx = concat (map (\<lambda>j. ?g (p ! j)) ?idx)"
    using lp by (auto simp: cycle_out_def permute_nth intro!: arg_cong [where f = concat])
  also have "\<dots> = concat (map ?g p)"
    using map_perm_index [OF lp, of ?g] by simp
  finally have out: "cycle_out E ?users' ?upd' ?idx = concat (map ?g p)" .
  have "mset (concat (map ?g p)) = mset (concat (map ?g ?idx))"
    using perm by (rule mset_concat_map_cong)
  moreover have "cycle_out E users upd ?idx = concat (map ?g ?idx)"
    by (simp only: cycle_out_def)
  ultimately have ms: "mset (cycle_out E ?users' ?upd' ?idx) = mset (cycle_out E users upd ?idx)"
    by (simp only: out)
  have "update_cycle E ?upd' ?users' lg' =
      (Inr (permute p us), lg' @ cycle_out E ?users' ?upd' ?idx)"
    using run' new by (simp add: update_cycle_def length_permute lp)
  with lg1 len_us ms show ?thesis by blast
qed

lemma print_status_app:
  "print_status E u lg = (fst (print_status E u []), lg @ snd (print_status E u []))"
  by (auto simp: print_status_def io_bind_def io_lift_def io_return_def io_raise_def
        user_is_online_def user_is_offline_def logging_info_def
        split: sum.splits)

lemma print_status_value:
  "status_ok E u \<Longrightarrow> print_status E u lg = (Inr (), lg @ status_out E u)"
  using print_status_app [of E u lg]
  by (auto simp: status_ok_def status_out_def split: sum.splits)

lemma print_status_fail:
  "\<not> status_ok E u \<Longrightarrow> \<exists>e l. print_status E u lg = (Inl e, l)"
  using print_status_app [of E u lg]
  by (auto simp: status_ok_def split: sum.splits)

lemma print_all_ok:
  "print_all E users lg = (Inr r, lg1) \<Longrightarrow> \<forall>u \<in> set users. status_ok E u"
proof (induction users arbitrary: lg)
  case Nil
  then show ?case by simp
next
  case (Cons u users)
  show ?case
  proof (cases "status_ok E u")
    case True
    with Cons.prems have "print_all E users (lg @ status_out E u) = (Inr r, lg1)"
      by (simp add: io_bind_def print_status_value)
    with Cons.IH True show ?thesis by simp
  next
    case False
    from print_status_fail [OF False, of lg] Cons.prems show ?thesis
      by (auto simp: io_bind_def)
  qed
qed

lemma print_all_value:
  "\<forall>u \<in> set users. status_ok E u \<Longrightarrow>
     print_all E users lg = (Inr (), lg @ concat (map (status_out E) users))"
  by (induction users arbitrary: lg) (simp_all add: io_return_def io_bind_def print_status_value)

lemma print_all_perm:
  assumes perm: "mset p = mset [0..<n]" and lu: "length users = n"
    and run: "print_all E users lg = (Inr r, lg1)"
  shows "\<exists>out out'. lg1 = lg @ out \<and>
           print_all E (permute p users) lg' = (Inr (), lg' @ out') \<and> mset out' = mset out"
proof -
  from print_all_ok [OF run] have ok: "\<forall>u \<in> set users. status_ok E u" .
  from print_all_value [OF ok, of lg] run
  have lg1: "lg1 = lg @ concat (map (status_out E) users)" by simp
  have ms: "mset (permute p users) = mset users"
    using perm lu by (simp only: mset_permute)
  then have "set (permute p users) = set users" by (rule mset_eq_setD)
  with ok have ok': "\<forall>u \<in> set (permute p users). status_ok E u" by simp
  have "mset (concat (map (status_out E) (permute p users))) =
        mset (concat (map (status_out E) users))"
    using ms by (rule mset_concat_map_cong)
  with print_all_value [OF ok', of lg'] lg1 show ?thesis by blast
qed

lemma while_true_perm:
  assumes perm: "mset p = mset [0..<n]"
    and "length users = n" and "\<forall>a \<in> set later. length a = n"
    and "while_true E (map Fetched later) users lg = (Inr us, lg1)"
  shows "\<exists>out out'. lg1 = lg @ out \<and>
           while_true E (map Fetched (map (permute p) later)) (permute p users) lg' =
             (Inr (permute p us), lg' @ out') \<and>
           mset out' = mset out"
  using assms(2-)
proof (induction later arbitrary: users lg lg')
  case Nil
  then show ?case by (simp add: io_return_def)
next
  case (Cons a later)
  from Cons.prems(3) obtain us0 lg0 where
    step: "update_cycle E a users lg = (Inr us0, lg0)"
    and rest: "while_true E (map Fetched later) us0 lg0 = (Inr us, lg1)"
    by (auto simp: io_bind_def split: prod.splits sum.splits)
  from Cons.prems(2) have la: "length a = n" and ll: "\<forall>a \<in> set later. length a = n"
    by auto
  from cycle_perm [OF perm Cons.prems(1) la step, of lg'] obtain o1 o1' where
    c: "lg0 = lg @ o1" "length us0 = n"
       "update_cycle E (permute p a) (permute p users) lg' = (Inr (permute p us0), lg' @ o1')"
       "mset o1' = mset o1"
    by blast
  from Cons.IH [OF c(2) ll rest, of "lg' @ o1'"] obtain o2 o2' where
    w: "lg1 = lg0 @ o2"
       "while_true E (map Fetched (map (permute p) later)) (permute p us0) (lg' @ o1') =
          (Inr (permute p us), (lg' @ o1') @ o2')"
       "mset o2' = mset o2"
    by blast
  have "lg1 = lg @ (o1 @ o2)" using c(1) w(1) by simp
  moreover have "while_true E (map Fetched (map (permute p) (a # later))) (permute p users) lg' =
      (Inr (permute p us), lg' @ (o1' @ o2'))"
    using c(3) w(2) by (simp add: io_bind_def)
  moreover have "mset (o1' @ o2') = mset (o1 @ o2)"
    using c(4) w(3) by simp
  ultimately show ?case by blast
qed

text \<open>
  C3, as the code has it. The loop compares the stored and the new list index by
  index. When every acquisition of a second run lists the users of the corresponding
  acquisition of a first run in one and the same rearranged order, and the first run
  goes through its cycles without raising, the second run does so too, stores the
  rearranged list and logs the same records, each as often as the first run, in a
  possibly different order.
\<close>

theorem consistent_order_same_notifications:
  assumes "mset p = mset [0..<n]"
    and "\<forall>a \<in> set (first # later). length a = n"
    and "loop_update_status E (map Fetched (first # later)) lg = (Inr users, lg1)"
  shows "\<exists>lg2. loop_update_status E (map Fetched (map (permute p) (first # later))) lg =
                  (Inr (permute p users), lg2) \<and>
               mset lg2 = mset lg1"
proof -
  from assms(2) have lf: "length first = n" and ll: "\<forall>a \<in> set later. length a = n"
    by auto
  from assms(3) obtain r lg0 where
    init: "print_all E first lg = (Inr r, lg0)"
    and loop: "while_true E (map Fetched later) first lg0 = (Inr users, lg1)"
    by (auto simp: io_bind_def split: prod.splits sum.splits)
  from print_all_perm [OF assms(1) lf init, of lg] obtain o1 o1' where
    a: "lg0 = lg @ o1" "print_all E (permute p first) lg = (Inr (), lg @ o1')"
       "mset o1' = mset o1"
    by blast
  from while_true_perm [OF assms(1) lf ll loop, of "lg @ o1'"] obtain o2 o2' where
    b: "lg1 = lg0 @ o2"
       "while_true E (map Fetched (map (permute p) later)) (permute p first) (lg @ o1') =
          (Inr (permute p users), (lg @ o1') @ o2')"
       "mset o2' = mset o2"
    by blast
  have "loop_update_status E (map Fetched (map (permute p) (first # later))) lg =
          (Inr (permute p users), (lg @ o1') @ o2')"
    using a(2) b(2) by (simp add: io_bind_def)
  moreover have "mset ((lg @ o1') @ o2') = mset lg1"
    using a(1,3) b(1,3) by simp
  ultimately show ?thesis by blast
qed

theorem consistent_order_same_notifications_witness:
  "\<exists>lg2. loop_update_status env0
            [Fetched [bob_offline, alice_online], Fetched [bob_online, alice_online]] [] =
            (Inr [bob_online, alice_online], lg2) \<and>
         mset lg2 =
           mset [Info ''Alice is ONLINE'', Info ''Ray Bob is OFFLINE'',
                 Info ''Ray Bob was last seen at <object>'', Info ''Ray Bob went ONLINE'']"
proof -
  have u: "[0..<2] = [0, Suc 0]"
    by (simp add: upt_rec)
  have p: "mset [Suc 0, 0] = mset [0..<2]"
    unfolding u by (simp add: add_mset_commute)
  have l: "\<forall>a \<in> set ([alice_online, bob_offline] # [[alice_online, bob_online]]). length a = 2"
    by simp
  have r: "loop_update_status env0
             (map Fetched ([alice_online, bob_offline] # [[alice_online, bob_online]])) [] =
           (Inr [alice_online, bob_online],
            [Info ''Alice is ONLINE'', Info ''Ray Bob is OFFLINE'',
             Info ''Ray Bob was last seen at <object>'', Info ''Ray Bob went ONLINE''])"
    by code_simp
  from consistent_order_same_notifications [OF p l r]
  show ?thesis by (simp add: permute_def)
qed

text \<open>
  C3, as stated, fails: two runs hold the same snapshots of Alice (offline) and Bob
  (online) in both acquisitions, and the second run lists them in the other order in
  its second acquisition. The first run logs no transition; the second compares Alice's
  stored snapshot with Bob's new one, logs that Bob went online, and then raises on
  the pair at the next index.
\<close>

theorem order_changes_notifications:
  "mset [bob_online, alice_offline] = mset [alice_offline, bob_online] \<and>
   loop_update_status env0
     [Fetched [alice_offline, bob_online], Fetched [alice_offline, bob_online]] [] =
     (Inr [alice_offline, bob_online],
      [Info ''Alice is OFFLINE'', Info ''Alice was last seen at <object>'',
       Info ''Ray Bob is ONLINE'']) \<and>
   loop_update_status env0
     [Fetched [alice_offline, bob_online], Fetched [bob_online, alice_offline]] [] =
     (Inl NameError,
      [Info ''Alice is OFFLINE'', Info ''Alice was last seen at <object>'',
       Info ''Ray Bob is ONLINE'', Info ''Ray Bob went ONLINE''])"
proof -
  have "mset [bob_online, alice_offline] = mset [alice_offline, bob_online]"
    by (simp add: add_mset_commute)
  moreover have "loop_update_status env0
     [Fetched [alice_offline, bob_online], Fetched [alice_offline, bob_online]] [] =
     (Inr [alice_offline, bob_online],
      [Info ''Alice is OFFLINE'', Info ''Alice was last seen at <object>'',
       Info ''Ray Bob is ONLINE''])"
    by code_simp
  moreover have "loop_update_status env0
     [Fetched [alice_offline, bob_online], Fetched [bob_online, alice_offline]] [] =
     (Inl NameError,
      [Info ''Alice is OFFLINE'', Info ''Alice was last seen at <object>'',
       Info ''Ray Bob is ONLINE'', Info ''Ray Bob went ONLINE''])"
    by code_simp
  ultimately show ?thesis by blast
qed


end
